theory Spec2Isabelle
  imports
    Complex_Main
    "HOL-Library.Multiset"
    "HOL-Library.Sublist"
    "HOL-Library.Char_ord"
    "HOL-Library.List_Lexorder"
    "HOL-Library.Log_Nat"
begin

section \<open>The playlist assembler: \<open>create_playlist\<close>\<close>

subsection \<open>\<open>random.shuffle\<close>\<close>

text \<open>
  \<open>create_playlist\<close> starts with \<open>random.shuffle(tracks)\<close>, which permutes the list in place.
  The standard library's loop is
  \<^verbatim>\<open>
  for i in reversed(range(1, len(x))):
      j = randbelow(i + 1)
      x[i], x[j] = x[j], x[i]
  \<close>
  The generator behind \<open>randbelow\<close> is process-wide state outside the repository, so it is a
  parameter of the model: a random source gives the raw value of the \<open>k\<close>-th draw, and
  \<open>randbelow\<close> reduces it below its bound. Every run of the real generator is some random
  source.
\<close>

type_synonym random_source = "nat \<Rightarrow> nat"

definition randbelow :: "random_source \<Rightarrow> nat \<Rightarrow> nat \<Rightarrow> nat" where
  "randbelow g k n = g k mod n"

text \<open>
  \<open>shuffle_loop g k i x\<close> runs the iterations for the indices \<open>i, i - 1, \<dots>, 1\<close>; \<open>k\<close> counts
  the draws made so far. Both sides of the swap are read before either is written.
\<close>

fun shuffle_loop :: "random_source \<Rightarrow> nat \<Rightarrow> nat \<Rightarrow> 'a list \<Rightarrow> 'a list" where
  "shuffle_loop g k 0 x = x"
| "shuffle_loop g k (Suc m) x =
     (let i = Suc m;
          j = randbelow g k (i + 1)
      in shuffle_loop g (k + 1) m (x[i := x ! j, j := x ! i]))"

definition shuffle :: "random_source \<Rightarrow> 'a list \<Rightarrow> 'a list" where
  "shuffle g x = shuffle_loop g 0 (length x - 1) x"

text \<open>The random source under which every draw picks \<open>j = i\<close>, for a list of length \<open>n\<close>.\<close>

definition fixed_draws :: "nat \<Rightarrow> random_source" where
  "fixed_draws n = (\<lambda>k. n - 1 - k)"

text \<open>The random source whose every draw is 0: each step swaps with the first element.\<close>

definition zero_draws :: random_source where
  "zero_draws = (\<lambda>k. 0)"

subsection \<open>List slices\<close>

text \<open>
  Python's \<open>xs[lo:hi]\<close> for integer bounds: a negative bound counts from the end, both bounds
  are clamped to \<open>0 .. len(xs)\<close>, and the slice is empty when the start is not below the stop.
\<close>

definition slice_index :: "nat \<Rightarrow> int \<Rightarrow> nat" where
  "slice_index n k = (if k < 0 then nat (max (k + int n) 0) else min (nat k) n)"

definition py_slice :: "'a list \<Rightarrow> int \<Rightarrow> int \<Rightarrow> 'a list" where
  "py_slice xs lo hi =
     (let a = slice_index (length xs) lo;
          b = slice_index (length xs) hi
      in take (b - a) (drop a xs))"

subsection \<open>The chunking loop\<close>

text \<open>
  \<^verbatim>\<open>
  i = 0
  playlist = []
  while i < len(tracks):
      chunk = tracks[i : i + songs_between_ads]
      playlist.extend(chunk)
      if ad_file and len(chunk) == songs_between_ads:
          playlist.append(ad_file)
      i += songs_between_ads
  return playlist
  \<close>
  Nothing in the loop forces \<open>i\<close> to grow, so the loop is a partial function: \<open>None\<close> is a
  run that never reaches \<open>return\<close>. An absent ad (\<open>None\<close>, the only falsy value the parameter
  can hold) is \<open>None\<close> here as well; a \<open>Path\<close> is always truthy.
\<close>

partial_function (option) playlist_loop ::
  "'a list \<Rightarrow> 'a option \<Rightarrow> int \<Rightarrow> int \<Rightarrow> 'a list \<Rightarrow> 'a list option" where
  "playlist_loop tracks ad_file songs_between_ads i playlist =
     (if i < int (length tracks) then
        let chunk = py_slice tracks i (i + songs_between_ads);
            playlist1 = playlist @ chunk;
            playlist2 = (case ad_file of
                           Some ad \<Rightarrow>
                             if int (length chunk) = songs_between_ads
                             then playlist1 @ [ad] else playlist1
                         | None \<Rightarrow> playlist1)
        in playlist_loop tracks ad_file songs_between_ads (i + songs_between_ads) playlist2
      else Some playlist)"

declare playlist_loop.simps [code]

text \<open>
  The caller's list is shuffled in place, so the model returns it next to the playlist:
  the first component is the argument list after the call, the second the returned list.
\<close>

definition create_playlist ::
  "random_source \<Rightarrow> 'a list \<Rightarrow> 'a option \<Rightarrow> int \<Rightarrow> ('a list \<times> 'a list) option" where
  "create_playlist g tracks ad_file songs_between_ads =
     (let tracks' = shuffle g tracks
      in map_option (Pair tracks') (playlist_loop tracks' ad_file songs_between_ads 0 []))"

text \<open>
  The assembly as section 4.4 of the specification words it, for comparison with the loop:
  cut the sequence into consecutive chunks of \<open>c\<close> tracks, and follow each chunk of full
  size by the ad.
\<close>

function chunks_with_ads :: "nat \<Rightarrow> 'a option \<Rightarrow> 'a list \<Rightarrow> 'a list" where
  "chunks_with_ads c ad xs =
     (if c = 0 \<or> xs = [] then []
      else take c xs
           @ (case ad of Some a \<Rightarrow> if c \<le> length xs then [a] else [] | None \<Rightarrow> [])
           @ chunks_with_ads c ad (drop c xs))"
  by pat_completeness auto
termination
  by (relation "measure (\<lambda>(c, ad, xs). length xs)") auto

declare chunks_with_ads.simps [simp del]

section \<open>Durations\<close>

text \<open>
  \<open>MutagenFile(p)\<close> is the duration oracle, a library outside the repository. The code
  tells four results apart: the call raises, it returns a falsy \<open>audio\<close>, \<open>audio.info\<close>
  is falsy, or \<open>audio.info.length\<close> is read. The oracle is a parameter of the model.
  Lengths are Python floats; they are modelled as real numbers, with exact arithmetic in
  place of float rounding, and without the non-finite floats.
\<close>

datatype probe = Raises | Falsy_Audio | Falsy_Info | Length real

text \<open>
  \<^verbatim>\<open>
  durations = []
  for p in paths:
      try:
          audio = MutagenFile(p)
          if audio and audio.info:
              durations.append(audio.info.length)
      except Exception:
          continue
  return sum(durations) / len(durations) if durations else 0
  \<close>
\<close>

fun collect_durations :: "('p \<Rightarrow> probe) \<Rightarrow> 'p list \<Rightarrow> real list \<Rightarrow> real list" where
  "collect_durations MutagenFile [] durations = durations"
| "collect_durations MutagenFile (p # paths) durations =
     (case MutagenFile p of
        Raises \<Rightarrow> collect_durations MutagenFile paths durations
      | Falsy_Audio \<Rightarrow> collect_durations MutagenFile paths durations
      | Falsy_Info \<Rightarrow> collect_durations MutagenFile paths durations
      | Length l \<Rightarrow> collect_durations MutagenFile paths (durations @ [l]))"

definition get_average_duration :: "('p \<Rightarrow> probe) \<Rightarrow> 'p list \<Rightarrow> real" where
  "get_average_duration MutagenFile paths =
     (let durations = collect_durations MutagenFile paths []
      in if durations \<noteq> [] then sum_list durations / real (length durations) else 0)"


text \<open>
  The total of \<open>main\<close>:
  \<^verbatim>\<open>
  total_duration = 0
  for p in playlist:
      try:
          audio = MutagenFile(p)
          if audio and audio.info:
              total_duration += audio.info.length or 0
      except Exception:
          continue
  \<close>
\<close>

fun total_duration_loop :: "('p \<Rightarrow> probe) \<Rightarrow> 'p list \<Rightarrow> real \<Rightarrow> real" where
  "total_duration_loop MutagenFile [] total_duration = total_duration"
| "total_duration_loop MutagenFile (p # playlist) total_duration =
     (case MutagenFile p of
        Raises \<Rightarrow> total_duration_loop MutagenFile playlist total_duration
      | Falsy_Audio \<Rightarrow> total_duration_loop MutagenFile playlist total_duration
      | Falsy_Info \<Rightarrow> total_duration_loop MutagenFile playlist total_duration
      | Length l \<Rightarrow>
          total_duration_loop MutagenFile playlist
            (total_duration + (if l \<noteq> 0 then l else 0)))"

definition total_duration :: "('p \<Rightarrow> probe) \<Rightarrow> 'p list \<Rightarrow> real" where
  "total_duration MutagenFile playlist = total_duration_loop MutagenFile playlist 0"


section \<open>Exceptions\<close>

text \<open>The exceptions that can leave the code modelled here.\<close>

datatype exn = ValueError | OSError | OverflowError

section \<open>The cadence\<close>

subsection \<open>Float arithmetic\<close>

text \<open>
  The cadence is \<open>round((args.ad_every * 60) / avg_duration)\<close>, an \<open>int\<close> divided by a
  \<open>float\<close> and rounded. Python's floats are IEEE-754 doubles: 53 bits of mantissa, the
  exponent of the last bit at least \<open>-1074\<close>, every result rounded to the nearest double
  with a tie going to the even mantissa, and a result of magnitude \<open>2 ^ 1024\<close> or more
  replaced by an infinity. A finite double is modelled as the real number it is.

  \<open>round(x)\<close> of a finite float gives the nearest integer, a tie going to the even one.
\<close>

definition py_round :: "real \<Rightarrow> int" where
  "py_round x =
     (let f = \<lfloor>x\<rfloor>;
          d = x - of_int f
      in if d < 1 / 2 then f
         else if 1 / 2 < d then f + 1
         else if even f then f else f + 1)"

text \<open>
  The binary exponent of a real \<open>x \<noteq> 0\<close>: the \<open>e\<close> with \<open>2 ^ e \<le> |x| < 2 ^ (e + 1)\<close>
  (lemma \<open>binary_exponent_bounds\<close>), computed from the bit length of an integer.
\<close>

definition binary_exponent :: "real \<Rightarrow> int" where
  "binary_exponent x =
     (if 1 \<le> \<bar>x\<bar> then bitlen \<lfloor>\<bar>x\<bar>\<rfloor> - 1 else - bitlen (\<lceil>1 / \<bar>x\<bar>\<rceil> - 1))"

text \<open>
  Rounding a real to the nearest double, with no bound on the exponent from above: the
  last bit of the mantissa weighs \<open>2 ^ q\<close>, where \<open>q\<close> is 52 below the binary exponent and
  at least \<open>-1074\<close>.
\<close>

definition nearest_double :: "real \<Rightarrow> real" where
  "nearest_double x =
     (if x = 0 then 0
      else let q = max (binary_exponent x) (- 1022) - 52
           in of_int (py_round (x / 2 powi q)) * 2 powi q)"

definition float_limit :: real where
  "float_limit = 2 ^ 1024"

text \<open>The result of a float operation: a finite double or an infinity.\<close>

datatype float = Finite_Float real | Infinity

definition to_float :: "real \<Rightarrow> float" where
  "to_float x =
     (let y = nearest_double x
      in if float_limit \<le> \<bar>y\<bar> then Infinity else Finite_Float y)"

text \<open>
  An \<open>int\<close> operand of a float division is converted first, and the conversion raises
  \<open>OverflowError\<close> (int too large to convert to float) where it would give an infinity.
\<close>

definition int_to_float :: "int \<Rightarrow> exn + real" where
  "int_to_float n =
     (case to_float (of_int n) of
        Infinity \<Rightarrow> Inl OverflowError
      | Finite_Float a \<Rightarrow> Inr a)"

text \<open>\<open>round\<close> raises \<open>OverflowError\<close> on an infinity.\<close>

fun float_round :: "float \<Rightarrow> exn + int" where
  "float_round Infinity = Inl OverflowError"
| "float_round (Finite_Float y) = Inr (py_round y)"

text \<open>
  \<open>round(n / d)\<close> for an \<open>int\<close> \<open>n\<close> and a finite float \<open>d\<close> other than 0: the division
  itself does not raise, it overflows to an infinity.
\<close>

definition round_quotient :: "int \<Rightarrow> real \<Rightarrow> exn + int" where
  "round_quotient n d =
     (case int_to_float n of
        Inl x \<Rightarrow> Inl x
      | Inr a \<Rightarrow> float_round (to_float (a / d)))"

subsection \<open>Songs between ads\<close>

text \<open>
  \<^verbatim>\<open>
  if avg_duration == 0:
      songs_between_ads = 0
  else:
      songs_between_ads = max(1, round((args.ad_every * 60) / avg_duration))
  \<close>
\<close>

definition songs_between_ads :: "int \<Rightarrow> real \<Rightarrow> exn + int" where
  "songs_between_ads ad_every avg_duration =
     (if avg_duration = 0 then Inr 0
      else (case round_quotient (ad_every * 60) avg_duration of
              Inl x \<Rightarrow> Inl x
            | Inr r \<Rightarrow> Inr (max 1 r)))"

section \<open>Paths\<close>

text \<open>
  A \<open>pathlib\<close> path is its anchor (\<open>''/''\<close> for an absolute POSIX path, empty for a
  relative one) and the list of its components. Strings are byte strings, a file name in
  its UTF-8 encoding.
\<close>

record path =
  anchor :: string
  tail :: "string list"

text \<open>\<open>sep.join(xs)\<close>\<close>

fun join :: "string \<Rightarrow> string list \<Rightarrow> string" where
  "join sep [] = []"
| "join sep [x] = x"
| "join sep (x # y # ys) = x @ sep @ join sep (y # ys)"

text \<open>\<open>s.split(sep)\<close> for a separator of one character; the result is never empty.\<close>

fun split_on :: "char \<Rightarrow> string \<Rightarrow> string list" where
  "split_on sep [] = [[]]"
| "split_on sep (c # cs) =
     (if c = sep then [] # split_on sep cs
      else (case split_on sep cs of
              w # ws \<Rightarrow> (c # w) # ws
            | [] \<Rightarrow> [[c]]))"

definition newline :: char where
  "newline = CHR 0x0A"

text \<open>\<open>str(path)\<close>: the empty relative path prints as a dot.\<close>

definition str :: "path \<Rightarrow> string" where
  "str p = (if anchor p = [] \<and> tail p = [] then ''.'' else anchor p @ join ''/'' (tail p))"

text \<open>\<open>path.name\<close>: the last component, empty when there is none.\<close>

definition name :: "path \<Rightarrow> string" where
  "name p = (if tail p = [] then [] else last (tail p))"

text \<open>\<open>path.parent\<close>: the path without its last component; a path without components is
  its own parent.\<close>

definition parent :: "path \<Rightarrow> path" where
  "parent p = p\<lparr>tail := butlast (tail p)\<rparr>"

text \<open>\<open>path / segment\<close> for a segment that is one relative component.\<close>

definition joinpath :: "path \<Rightarrow> string \<Rightarrow> path" where
  "joinpath p segment = p\<lparr>tail := tail p @ [segment]\<rparr>"

text \<open>
  \<open>path.relative_to(other)\<close> raises \<open>ValueError\<close> unless \<open>other\<close> is the path itself or
  one of its ancestors, and otherwise returns the relative path of the components that
  follow \<open>other\<close>.
\<close>

definition relative_to :: "path \<Rightarrow> path \<Rightarrow> exn + path" where
  "relative_to p other =
     (if anchor other = anchor p \<and> prefix (tail other) (tail p)
      then Inr \<lparr>anchor = [], tail = drop (length (tail other)) (tail p)\<rparr>
      else Inl ValueError)"

text \<open>
  The path relative to the directory two levels up, in the words of the specification:
  the last two components of the path (all of them when there are fewer).
\<close>

definition last_two :: "path \<Rightarrow> path" where
  "last_two p = \<lparr>anchor = [], tail = drop (length (tail p) - 2) (tail p)\<rparr>"

text \<open>
  \<open>path.suffix\<close>: the name from its last dot on, where that dot is neither the first nor
  the last character of the name.
\<close>

fun rfind_from :: "char \<Rightarrow> string \<Rightarrow> nat \<Rightarrow> nat option \<Rightarrow> nat option" where
  "rfind_from c [] k found = found"
| "rfind_from c (x # xs) k found = rfind_from c xs (k + 1) (if x = c then Some k else found)"

definition rfind :: "char \<Rightarrow> string \<Rightarrow> nat option" where
  "rfind c s = rfind_from c s 0 None"

definition path_suffix :: "path \<Rightarrow> string" where
  "path_suffix p =
     (case rfind CHR ''.'' (name p) of
        None \<Rightarrow> []
      | Some i \<Rightarrow> if 0 < i \<and> int i < int (length (name p)) - 1 then drop i (name p) else [])"

text \<open>
  \<open>s.lower()\<close> on the ASCII letters. No character outside ASCII lowers to a character of
  one of the seven extensions below, so the membership test is that of the code.
\<close>

definition lower_char :: "char \<Rightarrow> char" where
  "lower_char c =
     (if CHR ''A'' \<le> c \<and> c \<le> CHR ''Z'' then char_of (of_char c + (32 :: nat)) else c)"

definition lower :: "string \<Rightarrow> string" where
  "lower s = map lower_char s"

definition AUDIO_EXTS :: "string set" where
  "AUDIO_EXTS = {''.mp3'', ''.ogg'', ''.flac'', ''.wav'', ''.aac'', ''.m4a'', ''.opus''}"

definition is_audio_file :: "path \<Rightarrow> bool" where
  "is_audio_file p = (lower (path_suffix p) \<in> AUDIO_EXTS)"

section \<open>The run: \<open>main\<close>\<close>

text \<open>
  Everything \<open>main\<close> reads from outside is a field of its environment: the parsed
  arguments, the file system, the operator behind the picker, the duration oracle and the
  random source. Of the file system, \<open>fs_iterdir\<close> is \<open>None\<close> where listing a directory
  raises, \<open>fs_can_open\<close> tells whether opening a file for writing succeeds, and
  \<open>fs_can_write\<close> whether writing a text to the opened file and closing it does.
  \<open>select_value(instruction, values)\<close> runs the picker and returns its selection: the
  label the operator chose, or \<open>None\<close> when the operator quits with \<open>q\<close>. The picker is a
  terminal application outside the model; \<open>operator e n\<close> is what \<open>select_value\<close> returns
  at the \<open>n\<close>-th prompt of the run.
\<close>

record env =
  ad_every :: int
  music_directory :: path
  playlist_directory :: path
  fs_exists :: "path \<Rightarrow> bool"
  fs_is_dir :: "path \<Rightarrow> bool"
  fs_is_file :: "path \<Rightarrow> bool"
  fs_iterdir :: "path \<Rightarrow> path list option"
  fs_can_open :: "path \<Rightarrow> bool"
  fs_can_write :: "path \<Rightarrow> string \<Rightarrow> bool"
  operator :: "nat \<Rightarrow> string \<Rightarrow> string list \<Rightarrow> string option"
  MutagenFile :: "path \<Rightarrow> probe"
  random :: random_source

text \<open>
  The messages of \<open>main\<close>, one constructor for each, with the values it formats; and what a
  run does that can be seen from outside, in order: a prompt with the operator's answer,
  a printed message, the playlist file opened for writing (and so emptied), its text
  written.
\<close>

datatype message =
    Minutes_Must_Be_Positive
  | Music_Directory_Missing
  | Playlists_Directory_Missing
  | Ads_Folder_Must_Be_Chosen
  | Ad_File_Must_Be_Chosen
  | Music_Folder_Must_Be_Chosen
  | No_Audio_Files
  | No_Average_Duration
  | Estimated_Total real
  | Ads_Every_Songs int real

datatype event =
    Select string "string list" "string option"
  | Print message
  | Open_File path
  | Write_File path string

text \<open>How a run ends: \<open>parser.exit(status, message)\<close>, an exception nobody catches, or
  the end of \<open>main\<close>.\<close>

datatype outcome = Exit nat message | Raised exn | Returned

text \<open>
  \<open>sorted\<close> compares paths by the components of their string form; the sort is stable.
\<close>

definition sort_parts :: "path \<Rightarrow> string list" where
  "sort_parts p = split_on CHR ''/'' (str p)"

definition get_audio_files :: "env \<Rightarrow> path \<Rightarrow> exn + path list" where
  "get_audio_files e directory =
     (case fs_iterdir e directory of
        None \<Rightarrow> Inl OSError
      | Some entries \<Rightarrow>
          Inr (sort_key sort_parts (filter (\<lambda>p. fs_is_file e p \<and> is_audio_file p) entries)))"

text \<open>
  The three selection steps of \<open>main\<close> are one block, written three times:
  \<^verbatim>\<open>
  choice = select_value(instruction, [path.name for path in directory.iterdir() if kind(path)])
  if not choice:
      parser.exit(1, message)
  (choice,) = [path for path in directory.iterdir() if path.name == choice]
  \<close>
  \<open>select_entry\<close> is that block, for the \<open>n\<close>-th prompt of the run. The unpacking raises
  \<open>ValueError\<close> unless exactly one entry has the chosen name.
\<close>

definition select_entry ::
  "env \<Rightarrow> nat \<Rightarrow> string \<Rightarrow> (path \<Rightarrow> bool) \<Rightarrow> path \<Rightarrow> message \<Rightarrow> event list
     \<Rightarrow> (outcome + path) \<times> event list" where
  "select_entry e n instruction kind directory msg trace =
     (case fs_iterdir e directory of
        None \<Rightarrow> (Inl (Raised OSError), trace)
      | Some entries \<Rightarrow>
          let values = map name (filter kind entries);
              answer = operator e n instruction values;
              trace1 = trace @ [Select instruction values answer]
          in (case answer of
                None \<Rightarrow> (Inl (Exit 1 msg), trace1)
              | Some choice \<Rightarrow>
                  if choice = [] then (Inl (Exit 1 msg), trace1)
                  else (case fs_iterdir e directory of
                          None \<Rightarrow> (Inl (Raised OSError), trace1)
                        | Some entries2 \<Rightarrow>
                            (case filter (\<lambda>p. name p = choice) entries2 of
                               [found] \<Rightarrow> (Inr found, trace1)
                             | _ \<Rightarrow> (Inl (Raised ValueError), trace1)))))"

text \<open>
  The text of the playlist file:
  \<^verbatim>\<open>
  '\n'.join(str(path.relative_to(path.parent.parent)) for path in playlist)
  \<close>
\<close>

fun relative_lines :: "path list \<Rightarrow> exn + string list" where
  "relative_lines [] = Inr []"
| "relative_lines (p # playlist) =
     (case relative_to p (parent (parent p)) of
        Inl x \<Rightarrow> Inl x
      | Inr r \<Rightarrow>
          (case relative_lines playlist of
             Inl x \<Rightarrow> Inl x
           | Inr ls \<Rightarrow> Inr (str r # ls)))"

definition playlist_text :: "path list \<Rightarrow> exn + string" where
  "playlist_text playlist =
     (case relative_lines playlist of
        Inl x \<Rightarrow> Inl x
      | Inr ls \<Rightarrow> Inr (join [newline] ls))"

text \<open>
  \<^verbatim>\<open>
  playlist_file = playlist_directory / 'jukebox.m3u'
  with playlist_file.open('w') as f:
      f.write(...)
  \<close>
  Opening raises \<open>OSError\<close> where the file cannot be opened for writing (\<open>main\<close> has only
  tested that the directory exists). The file is opened, and so emptied, before the text
  is computed; writing and closing can raise as well.
\<close>

definition write_playlist :: "env \<Rightarrow> path list \<Rightarrow> event list \<Rightarrow> outcome \<times> event list" where
  "write_playlist e playlist trace =
     (let playlist_file = joinpath (playlist_directory e) ''jukebox.m3u''
      in if \<not> fs_can_open e playlist_file then (Raised OSError, trace)
         else
           let trace1 = trace @ [Open_File playlist_file]
           in (case playlist_text playlist of
                 Inl x \<Rightarrow> (Raised x, trace1)
               | Inr text \<Rightarrow>
                   if \<not> fs_can_write e playlist_file text then (Raised OSError, trace1)
                   else (Returned, trace1 @ [Write_File playlist_file text])))"

text \<open>
  The playlist of \<open>main\<close>: \<open>create_playlist\<close> is called only with a positive average,
  and then with a cadence of at least 1; otherwise the playlist is the sorted list of
  tracks as it is, not shuffled. At this point \<open>ad_file\<close> is a \<open>Path\<close>, which is always
  truthy, so the test of \<open>ad_file\<close> is always passed. The cadence is computed before the
  call, and an exception of the float arithmetic leaves \<open>main\<close> there.
  \<^verbatim>\<open>
  playlist = (
      create_playlist(tracks, ad_file, max(1, round((args.ad_every * 60) / avg_duration)))
      if ad_file and avg_duration > 0
      else tracks
  )
  \<close>
\<close>

definition assemble :: "env \<Rightarrow> path list \<Rightarrow> path \<Rightarrow> real \<Rightarrow> (exn + path list) option" where
  "assemble e tracks ad_file avg_duration =
     (if 0 < avg_duration
      then (case round_quotient (ad_every e * 60) avg_duration of
              Inl x \<Rightarrow> Some (Inl x)
            | Inr r \<Rightarrow>
                map_option (\<lambda>(tracks', playlist). Inr playlist)
                  (create_playlist (random e) tracks (Some ad_file) (max 1 r)))
      else Some (Inr tracks))"

text \<open>
  From the list of tracks to the end of \<open>main\<close>. In the branch of a non-zero average the
  cadence is computed, and can raise, before anything is printed.
\<close>

definition finish :: "env \<Rightarrow> path list \<Rightarrow> path \<Rightarrow> event list \<Rightarrow> (outcome \<times> event list) option" where
  "finish e tracks ad_file trace =
     (if tracks = [] then Some (Returned, trace @ [Print No_Audio_Files])
      else
        let avg_duration = get_average_duration (MutagenFile e) tracks
        in (case assemble e tracks ad_file avg_duration of
              None \<Rightarrow> None
            | Some (Inl x) \<Rightarrow> Some (Raised x, trace)
            | Some (Inr playlist) \<Rightarrow>
                let total = total_duration (MutagenFile e) playlist
                in if avg_duration = 0
                   then Some (write_playlist e playlist (trace @ [Print No_Average_Duration]))
                   else (case songs_between_ads (ad_every e) avg_duration of
                           Inl x \<Rightarrow> Some (Raised x, trace)
                         | Inr n \<Rightarrow>
                             Some (write_playlist e playlist
                                     (trace @ [Print (Estimated_Total total),
                                               Print (Ads_Every_Songs n
                                                        (avg_duration / 60))])))))"

definition main :: "env \<Rightarrow> (outcome \<times> event list) option" where
  "main e =
     (if ad_every e < 0 then Some (Exit 1 Minutes_Must_Be_Positive, [])
      else if \<not> fs_exists e (music_directory e) then Some (Exit 1 Music_Directory_Missing, [])
      else if \<not> fs_exists e (playlist_directory e)
        then Some (Exit 1 Playlists_Directory_Missing, [])
      else
        (case select_entry e 0 ''Select the ads folder'' (fs_is_dir e) (music_directory e)
                Ads_Folder_Must_Be_Chosen [] of
           (Inl out, trace1) \<Rightarrow> Some (out, trace1)
         | (Inr ads_folder, trace1) \<Rightarrow>
        (case select_entry e 1 ''Select the ad file'' (fs_is_file e) ads_folder
                Ad_File_Must_Be_Chosen trace1 of
           (Inl out, trace2) \<Rightarrow> Some (out, trace2)
         | (Inr ad_file, trace2) \<Rightarrow>
        (case select_entry e 2 ''Select the music folder'' (fs_is_dir e) (music_directory e)
                Music_Folder_Must_Be_Chosen trace2 of
           (Inl out, trace3) \<Rightarrow> Some (out, trace3)
         | (Inr music_folder, trace3) \<Rightarrow>
        (case get_audio_files e music_folder of
           Inl x \<Rightarrow> Some (Raised x, trace3)
         | Inr tracks \<Rightarrow> finish e tracks ad_file trace3)))))"

subsection \<open>Reading a trace\<close>

text \<open>
  A prompt of the picker; a prompt the operator left without choosing; the instruction a
  prompt showed. The three prompts of \<open>main\<close> and the message of each when it is
  cancelled, in the order of the source.
\<close>

fun is_select :: "event \<Rightarrow> bool" where
  "is_select (Select instruction values answer) = True"
| "is_select (Print m) = False"
| "is_select (Open_File f) = False"
| "is_select (Write_File f text) = False"

fun cancelled :: "event \<Rightarrow> bool" where
  "cancelled (Select instruction values answer) = (answer = None)"
| "cancelled (Print m) = False"
| "cancelled (Open_File f) = False"
| "cancelled (Write_File f text) = False"

fun instruction_of :: "event \<Rightarrow> string" where
  "instruction_of (Select instruction values answer) = instruction"
| "instruction_of (Print m) = []"
| "instruction_of (Open_File f) = []"
| "instruction_of (Write_File f text) = []"

definition instructions :: "string list" where
  "instructions = [''Select the ads folder'', ''Select the ad file'', ''Select the music folder'']"

definition cancel_messages :: "message list" where
  "cancel_messages =
     [Ads_Folder_Must_Be_Chosen, Ad_File_Must_Be_Chosen, Music_Folder_Must_Be_Chosen]"

subsection \<open>A small library to run \<open>main\<close> on\<close>

definition abs_path :: "string list \<Rightarrow> path" where
  "abs_path parts = \<lparr>anchor = ''/'', tail = parts\<rparr>"

definition library_dirs :: "string list list" where
  "library_dirs = [[''music''], [''music'', ''ads''], [''music'', ''rock''], [''lists'']]"

definition library_files :: "string list list" where
  "library_files =
     [[''music'', ''ads'', ''ad.mp3''],
      [''music'', ''rock'', ''c.MP3''], [''music'', ''rock'', ''a.flac''],
      [''music'', ''rock'', ''notes.txt''], [''music'', ''rock'', ''b.ogg'']]"

definition library_iterdir :: "path \<Rightarrow> path list option" where
  "library_iterdir d =
     (if anchor d = ''/'' \<and> tail d \<in> set library_dirs
      then Some (map abs_path
                   (filter (\<lambda>parts. parts \<noteq> [] \<and> butlast parts = tail d)
                      (library_dirs @ library_files)))
      else None)"

text \<open>An operator who answers the prompts in order from a list, and quits after it.\<close>

definition scripted :: "string list \<Rightarrow> nat \<Rightarrow> string \<Rightarrow> string list \<Rightarrow> string option" where
  "scripted answers n instruction values = (if n < length answers then Some (answers ! n) else None)"

definition library_oracle :: "path \<Rightarrow> probe" where
  "library_oracle p =
     (if name p = ''a.flac'' then Length 100
      else if name p = ''b.ogg'' then Length 200
      else if name p = ''ad.mp3'' then Length 30
      else Raises)"

definition library_env :: "string list \<Rightarrow> env" where
  "library_env answers =
     \<lparr>ad_every = 5,
      music_directory = abs_path [''music''],
      playlist_directory = abs_path [''lists''],
      fs_exists = (\<lambda>p. anchor p = ''/'' \<and> tail p \<in> set (library_dirs @ library_files)),
      fs_is_dir = (\<lambda>p. anchor p = ''/'' \<and> tail p \<in> set library_dirs),
      fs_is_file = (\<lambda>p. anchor p = ''/'' \<and> tail p \<in> set library_files),
      fs_iterdir = library_iterdir,
      fs_can_open = (\<lambda>p. True),
      fs_can_write = (\<lambda>p text. True),
      operator = scripted answers,
      MutagenFile = library_oracle,
      random = fixed_draws 3\<rparr>"

section \<open>Properties of the shuffle and of the chunking loop\<close>

lemma length_shuffle_loop: "length (shuffle_loop g k i x) = length x"
  by (induction i arbitrary: k x) (simp_all add: Let_def)

lemma mset_shuffle_loop: "i < length x \<Longrightarrow> mset (shuffle_loop g k i x) = mset x"
proof (induction i arbitrary: k x)
  case 0
  then show ?case by simp
next
  case (Suc m)
  have "randbelow g k (Suc m + 1) < Suc (Suc m)"
    by (simp add: randbelow_def)
  with Suc.prems have j: "randbelow g k (Suc m + 1) < length x"
    by linarith
  have "mset (x[Suc m := x ! randbelow g k (Suc m + 1), randbelow g k (Suc m + 1) := x ! Suc m]) = mset x"
    using j Suc.prems by (rule mset_swap)
  with Suc show ?case by (simp add: Let_def)
qed

lemma mset_shuffle: "mset (shuffle g x) = mset x"
  by (cases x) (simp_all add: shuffle_def mset_shuffle_loop)

lemma length_shuffle: "length (shuffle g x) = length x"
  by (simp add: shuffle_def length_shuffle_loop)

lemma shuffle_loop_fixed_draws:
  "k + m = n - 1 \<Longrightarrow> shuffle_loop (fixed_draws n) k m x = x"
proof (induction m arbitrary: k x)
  case 0
  then show ?case by simp
next
  case (Suc m)
  have "n - 1 - k = Suc m" using Suc.prems by simp
  then have "randbelow (fixed_draws n) k (Suc m + 1) = Suc m"
    by (simp add: randbelow_def fixed_draws_def)
  with Suc show ?case by (simp add: Let_def)
qed

lemma shuffle_fixed_draws: "shuffle (fixed_draws (length x)) x = x"
  by (simp add: shuffle_def shuffle_loop_fixed_draws)

lemma py_slice_chunk:
  "py_slice xs (int i) (int i + int c) = take c (drop i xs)"
  by (auto simp add: py_slice_def slice_index_def Let_def min_def nat_add_distrib)

lemma playlist_loop_returns:
  "0 < c \<Longrightarrow>
   playlist_loop tracks ad (int c) (int i) acc = Some (acc @ chunks_with_ads c ad (drop i tracks))"
proof (induction "length tracks - i" arbitrary: i acc rule: less_induct)
  case less
  show ?case
  proof (cases "i < length tracks")
    case False
    then show ?thesis
      by (subst playlist_loop.simps) (simp add: chunks_with_ads.simps)
  next
    case True
    let ?chunk = "take c (drop i tracks)"
    let ?acc = "(acc @ ?chunk) @ (case ad of Some a \<Rightarrow> if c \<le> length (drop i tracks) then [a] else [] | None \<Rightarrow> [])"
    have len: "(int (length ?chunk) = int c) = (c \<le> length (drop i tracks))"
      by (auto simp add: min_def)
    have step: "playlist_loop tracks ad (int c) (int i) acc = playlist_loop tracks ad (int c) (int (i + c)) ?acc"
      using True
      by (subst playlist_loop.simps) (simp add: py_slice_chunk Let_def split: option.splits)
    have "length tracks - (i + c) < length tracks - i"
      using True less.prems by simp
    from less.hyps [OF this less.prems, of ?acc]
    have "playlist_loop tracks ad (int c) (int (i + c)) ?acc
            = Some (?acc @ chunks_with_ads c ad (drop (i + c) tracks))" .
    moreover have "chunks_with_ads c ad (drop i tracks)
          = ?chunk @ (case ad of Some a \<Rightarrow> if c \<le> length (drop i tracks) then [a] else [] | None \<Rightarrow> [])
             @ chunks_with_ads c ad (drop (i + c) tracks)"
      using True less.prems
      by (subst chunks_with_ads.simps) (simp add: add.commute)
    ultimately show ?thesis using step by simp
  qed
qed

lemma playlist_loop_Some_progress:
  "playlist_loop tracks ad c i acc = Some pl \<Longrightarrow> 0 < c \<or> int (length tracks) \<le> i"
proof (induction tracks ad c i acc pl rule: playlist_loop.raw_induct [rotated 1, consumes 1])
  case (1 loop tracks ad c i acc pl)
  show ?case
  proof (cases "i < int (length tracks)")
    case False
    then show ?thesis by simp
  next
    case True
    with 1(2) obtain acc' where "loop tracks ad c (i + c) acc' = Some pl"
      by (simp add: Let_def)
    from 1(1) [OF this] True show ?thesis by auto
  qed
qed

lemma playlist_loop_diverges:
  "c \<le> 0 \<Longrightarrow> i < int (length tracks) \<Longrightarrow> playlist_loop tracks ad c i acc = None"
  using playlist_loop_Some_progress [of tracks ad c i acc]
  by (cases "playlist_loop tracks ad c i acc") auto

lemma chunks_unfold:
  "0 < c \<Longrightarrow> xs \<noteq> [] \<Longrightarrow>
   chunks_with_ads c ad xs =
     take c xs @ (case ad of Some a \<Rightarrow> if c \<le> length xs then [a] else [] | None \<Rightarrow> [])
       @ chunks_with_ads c ad (drop c xs)"
  by (subst chunks_with_ads.simps) simp

lemma chunks_Nil: "chunks_with_ads c ad [] = []"
  by (subst chunks_with_ads.simps) simp

lemma chunks_full:
  "0 < c \<Longrightarrow> c \<le> length xs \<Longrightarrow>
   chunks_with_ads c (Some a) xs = take c xs @ a # chunks_with_ads c (Some a) (drop c xs)"
  by (subst chunks_with_ads.simps) auto

lemma chunks_short:
  "0 < c \<Longrightarrow> length xs < c \<Longrightarrow> chunks_with_ads c ad xs = xs"
  by (subst chunks_with_ads.simps) (simp add: chunks_Nil split: option.splits)

lemma chunks_None: "0 < c \<Longrightarrow> chunks_with_ads c None xs = xs"
proof (induction "length xs" arbitrary: xs rule: less_induct)
  case less
  show ?case
  proof (cases "xs = []")
    case True
    then show ?thesis by (simp add: chunks_Nil)
  next
    case False
    with less.prems have "length (drop c xs) < length xs" by simp
    from less.hyps [OF this less.prems]
    have "chunks_with_ads c None (drop c xs) = drop c xs" .
    with False less.prems show ?thesis
      by (subst chunks_with_ads.simps) simp
  qed
qed

lemma mset_chunks:
  "0 < c \<Longrightarrow>
   mset (chunks_with_ads c (Some a) xs) = mset xs + replicate_mset (length xs div c) a"
proof (induction "length xs" arbitrary: xs rule: less_induct)
  case less
  show ?case
  proof (cases "c \<le> length xs")
    case False
    with less.prems show ?thesis by (simp add: chunks_short)
  next
    case True
    with less.prems have "length (drop c xs) < length xs" by simp
    from less.hyps [OF this less.prems]
    have IH: "mset (chunks_with_ads c (Some a) (drop c xs))
                = mset (drop c xs) + replicate_mset ((length xs - c) div c) a"
      by simp
    have d: "length xs div c = Suc ((length xs - c) div c)"
      using True less.prems by (simp add: le_div_geq)
    have "mset xs = mset (take c xs) + mset (drop c xs)"
      by (metis append_take_drop_id mset_append)
    with IH d True less.prems show ?thesis
      by (simp add: chunks_full)
  qed
qed

lemma length_chunks:
  "0 < c \<Longrightarrow> length (chunks_with_ads c (Some a) xs) = length xs + length xs div c"
proof -
  assume "0 < c"
  then have "size (mset (chunks_with_ads c (Some a) xs))
               = size (mset xs + replicate_mset (length xs div c) a)"
    by (simp only: mset_chunks)
  then show ?thesis by simp
qed

lemma chunks_nth_track:
  "0 < c \<Longrightarrow> r < c \<Longrightarrow> q * c + r < length xs \<Longrightarrow>
   chunks_with_ads c (Some a) xs ! (q * (c + 1) + r) = xs ! (q * c + r)"
proof (induction q arbitrary: xs)
  case 0
  then have "xs \<noteq> []" by auto
  with 0 show ?case
    by (subst chunks_with_ads.simps) (simp add: nth_append)
next
  case (Suc q)
  then have le: "c \<le> length xs" by simp
  have "q * c + r < length (drop c xs)" using Suc.prems by simp
  from Suc.IH [OF Suc.prems(1,2) this]
  have IH: "chunks_with_ads c (Some a) (drop c xs) ! (q * (c + 1) + r) = xs ! (c + (q * c + r))"
    using le by simp
  have split: "chunks_with_ads c (Some a) xs
                 = (take c xs @ [a]) @ chunks_with_ads c (Some a) (drop c xs)"
    using le Suc.prems(1) by (simp add: chunks_full)
  have idx: "Suc q * (c + 1) + r = length (take c xs @ [a]) + (q * (c + 1) + r)"
    using le by (simp add: min_def)
  have "chunks_with_ads c (Some a) xs ! (Suc q * (c + 1) + r)
          = ((take c xs @ [a]) @ chunks_with_ads c (Some a) (drop c xs)) ! (length (take c xs @ [a]) + (q * (c + 1) + r))"
    by (simp only: idx) (simp only: split)
  also have "\<dots> = chunks_with_ads c (Some a) (drop c xs) ! (q * (c + 1) + r)"
    by (rule nth_append_length_plus)
  finally show ?case using IH by (simp add: add.assoc)
qed

lemma chunks_nth_ad:
  "0 < c \<Longrightarrow> q < length xs div c \<Longrightarrow>
   chunks_with_ads c (Some a) xs ! (q * (c + 1) + c) = a"
proof (induction q arbitrary: xs)
  case 0
  then have le: "c \<le> length xs"
    by (metis div_less not_less less_numeral_extra(3))
  with 0 show ?case
    by (simp add: chunks_full nth_append min_def)
next
  case (Suc q)
  then have le: "c \<le> length xs"
    by (metis div_less not_less not_less0)
  then have "length xs div c = Suc ((length xs - c) div c)"
    using Suc.prems(1) by (simp add: le_div_geq)
  with Suc.prems have "q < length (drop c xs) div c" by simp
  from Suc.IH [OF Suc.prems(1) this]
  have IH: "chunks_with_ads c (Some a) (drop c xs) ! (q * (c + 1) + c) = a" .
  have split: "chunks_with_ads c (Some a) xs
                 = (take c xs @ [a]) @ chunks_with_ads c (Some a) (drop c xs)"
    using le Suc.prems(1) by (simp add: chunks_full)
  have idx: "Suc q * (c + 1) + c = length (take c xs @ [a]) + (q * (c + 1) + c)"
    using le by (simp add: min_def)
  have "chunks_with_ads c (Some a) xs ! (Suc q * (c + 1) + c)
          = ((take c xs @ [a]) @ chunks_with_ads c (Some a) (drop c xs)) ! (length (take c xs @ [a]) + (q * (c + 1) + c))"
    by (simp only: idx) (simp only: split)
  also have "\<dots> = chunks_with_ads c (Some a) (drop c xs) ! (q * (c + 1) + c)"
    by (rule nth_append_length_plus)
  finally show ?case using IH by simp
qed

lemma create_playlist_returns:
  "0 < c \<Longrightarrow>
   create_playlist g tracks ad (int c)
     = Some (shuffle g tracks, chunks_with_ads c ad (shuffle g tracks))"
  using playlist_loop_returns [of c "shuffle g tracks" ad 0 "[]"]
  by (simp add: create_playlist_def Let_def)

lemma create_playlist_diverges:
  "c \<le> 0 \<Longrightarrow> tracks \<noteq> [] \<Longrightarrow> create_playlist g tracks ad c = None"
  using playlist_loop_diverges [of c 0 "shuffle g tracks" ad "[]"]
  by (simp add: create_playlist_def Let_def length_shuffle)

lemma create_playlist_empty: "create_playlist g [] ad c = Some ([], [])"
  by (simp add: create_playlist_def Let_def shuffle_def playlist_loop.simps)

lemma shuffle_loop_nth_above:
  "m < p \<Longrightarrow> shuffle_loop g k m x ! p = x ! p"
proof (induction m arbitrary: k x)
  case 0
  then show ?case by simp
next
  case (Suc m)
  have "randbelow g k (Suc m + 1) < Suc (Suc m)"
    by (simp add: randbelow_def)
  with Suc.prems have "randbelow g k (Suc m + 1) \<noteq> p" by linarith
  with Suc show ?case by (simp add: Let_def)
qed


lemma shuffle_zero_draws_moves:
  assumes "distinct x" "2 \<le> length x"
  shows "shuffle zero_draws x \<noteq> x"
proof -
  obtain n where n: "length x = Suc (Suc n)"
    using assms(2) by (metis Suc_le_D numeral_2_eq_2 Suc_le_mono)
  have "shuffle zero_draws x ! Suc n = (x[Suc n := x ! 0, 0 := x ! Suc n]) ! Suc n"
    by (simp add: shuffle_def n Let_def randbelow_def zero_draws_def shuffle_loop_nth_above)
  also have "\<dots> = x ! 0" using n by simp
  finally have "shuffle zero_draws x ! Suc n = x ! 0" .
  moreover have "x ! 0 \<noteq> x ! Suc n"
    using assms(1) n by (simp add: nth_eq_iff_index_eq)
  ultimately show ?thesis by metis
qed

section \<open>Properties of \<open>create_playlist\<close>\<close>

lemma create_playlist_returns_int:
  "0 < c \<Longrightarrow>
   create_playlist g tracks ad c
     = Some (shuffle g tracks, chunks_with_ads (nat c) ad (shuffle g tracks))"
  using create_playlist_returns [of "nat c" g tracks ad] by simp

text \<open>
  Claim C1, as amended. With the ad absent and a cadence of at least 1, or with no tracks
  at all, \<open>create_playlist\<close> returns, and what it returns is exactly the shuffled
  sequence: nothing is inserted. (With cadence 0 and a track to play the loop never ends,
  see the counterexample; \<open>main\<close> never makes that call.)
\<close>
theorem create_playlist_without_ad:
  fixes c :: int
  assumes "(ad = None \<and> 0 < c) \<or> tracks = []"
  shows "create_playlist g tracks ad c = Some (shuffle g tracks, shuffle g tracks)"
  using assms
proof
  assume "ad = None \<and> 0 < c"
  then show ?thesis
    by (simp add: create_playlist_returns_int chunks_None)
next
  assume "tracks = []"
  then show ?thesis
    by (simp add: create_playlist_empty shuffle_def)
qed

theorem create_playlist_without_ad_witness:
  "((None :: nat option) = None \<and> (0::int) < 2 \<or> [11, 12, 13 :: nat] = [])
   \<and> create_playlist zero_draws [11, 12, 13 :: nat] None 2 = Some ([12, 13, 11], [12, 13, 11])"
proof -
  have h: "((None :: nat option) = None \<and> (0::int) < 2) \<or> [11, 12, 13 :: nat] = []"
    by simp
  have s: "shuffle zero_draws [11, 12, 13 :: nat] = [12, 13, 11]"
    by (simp add: shuffle_def zero_draws_def randbelow_def Let_def numeral_eq_Suc)
  from create_playlist_without_ad [OF h, of zero_draws] h s show ?thesis
    by simp
qed

text \<open>
  Claim C1 as stated fails at cadence 0: with one track, \<open>i\<close> stays 0 below the length
  of the list, and the call does not return the shuffled sequence, nor anything else.
\<close>
theorem create_playlist_cadence_zero_counterexample:
  "create_playlist zero_draws [11 :: nat] (Some 99) 0 = None
   \<and> create_playlist zero_draws [11 :: nat] (Some 99) 0
        \<noteq> Some (shuffle zero_draws [11], shuffle zero_draws [11])"
  by (simp add: create_playlist_diverges)

text \<open>
  Claim C2. With an ad and a cadence \<open>c > 0\<close>, \<open>create_playlist\<close> returns the chunks of
  the shuffled sequence with the ad after each full one. The playlist has
  \<open>L + L div c\<close> entries for \<open>L\<close> tracks; the \<open>L div c\<close> inserted entries stand at the
  positions \<open>q * (c + 1) + c\<close>, each right after the \<open>c\<close> tracks of chunk \<open>q\<close>; every
  other position holds the tracks in shuffled order, so the tracks of a short last chunk
  end the playlist with no ad behind them.
\<close>
theorem create_playlist_inserts_ads:
  assumes "0 < c"
  shows "\<exists>playlist.
           create_playlist g tracks (Some ad) (int c) = Some (shuffle g tracks, playlist)
         \<and> playlist = chunks_with_ads c (Some ad) (shuffle g tracks)
         \<and> length playlist = length tracks + length tracks div c
         \<and> (\<forall>q. q < length tracks div c \<longrightarrow> playlist ! (q * (c + 1) + c) = ad)
         \<and> (\<forall>q r. r < c \<and> q * c + r < length tracks \<longrightarrow>
                playlist ! (q * (c + 1) + r) = shuffle g tracks ! (q * c + r))"
proof -
  let ?sh = "shuffle g tracks"
  let ?pl = "chunks_with_ads c (Some ad) ?sh"
  have "create_playlist g tracks (Some ad) (int c) = Some (?sh, ?pl)"
    using assms by (rule create_playlist_returns)
  moreover have "length ?pl = length tracks + length tracks div c"
    using assms by (simp add: length_chunks length_shuffle)
  moreover have "\<forall>q. q < length tracks div c \<longrightarrow> ?pl ! (q * (c + 1) + c) = ad"
    using assms by (intro allI impI) (rule chunks_nth_ad, simp_all add: length_shuffle)
  moreover have "\<forall>q r. r < c \<and> q * c + r < length tracks \<longrightarrow>
                   ?pl ! (q * (c + 1) + r) = ?sh ! (q * c + r)"
    using assms by (intro allI impI) (rule chunks_nth_track, simp_all add: length_shuffle)
  ultimately show ?thesis by blast
qed

theorem create_playlist_inserts_ads_witness:
  "0 < (3::nat)
   \<and> create_playlist zero_draws [11, 12, 13, 14, 15, 16, 17 :: nat] (Some 99) (int 3)
       = Some ([12, 13, 14, 15, 16, 17, 11], [12, 13, 14, 99, 15, 16, 17, 99, 11])
   \<and> length [12, 13, 14, 99, 15, 16, 17, 99, 11 :: nat] = 7 + 7 div 3"
proof -
  have h: "0 < (3::nat)" by simp
  have s: "shuffle zero_draws [11, 12, 13, 14, 15, 16, 17 :: nat] = [12, 13, 14, 15, 16, 17, 11]"
    by (simp add: shuffle_def zero_draws_def randbelow_def Let_def numeral_eq_Suc)
  have c: "chunks_with_ads 3 (Some 99) [12, 13, 14, 15, 16, 17, 11 :: nat] = [12, 13, 14, 99, 15, 16, 17, 99, 11]"
    by code_simp
  from create_playlist_inserts_ads [OF h, of zero_draws "[11, 12, 13, 14, 15, 16, 17 :: nat]" 99]
  show ?thesis by (simp add: s c)
qed

lemma filter_other_replicate_mset:
  "a \<notin> set xs \<Longrightarrow> filter_mset (\<lambda>x. x \<noteq> a) (mset xs + replicate_mset n a) = mset xs"
  by (induction xs) auto

text \<open>
  Claim C3, as amended to a cadence of at least 1. The call returns, and the playlist is
  the tracks, each as often as in the input, plus the inserted copies of the ad and nothing
  else; when the ad is not itself one of the tracks, the entries other than the ad are a
  permutation of the input.
\<close>
theorem create_playlist_keeps_tracks:
  assumes "0 < c"
  shows "\<exists>playlist.
           create_playlist g tracks ad (int c) = Some (shuffle g tracks, playlist)
         \<and> mset playlist
             = mset tracks
               + (case ad of None \<Rightarrow> {#} | Some a \<Rightarrow> replicate_mset (length tracks div c) a)
         \<and> (\<forall>a. ad = Some a \<and> a \<notin> set tracks \<longrightarrow>
                mset (filter (\<lambda>x. x \<noteq> a) playlist) = mset tracks)"
proof -
  let ?sh = "shuffle g tracks"
  let ?pl = "chunks_with_ads c ad ?sh"
  have r: "create_playlist g tracks ad (int c) = Some (?sh, ?pl)"
    using assms by (rule create_playlist_returns)
  have m: "mset ?pl
             = mset tracks
               + (case ad of None \<Rightarrow> {#} | Some a \<Rightarrow> replicate_mset (length tracks div c) a)"
    using assms
    by (cases ad) (simp_all add: chunks_None mset_chunks mset_shuffle length_shuffle)
  have "\<forall>a. ad = Some a \<and> a \<notin> set tracks \<longrightarrow>
          mset (filter (\<lambda>x. x \<noteq> a) ?pl) = mset tracks"
  proof (intro allI impI)
    fix a
    assume a: "ad = Some a \<and> a \<notin> set tracks"
    have m': "mset ?pl = mset tracks + replicate_mset (length tracks div c) a"
      using m a by simp
    have "mset (filter (\<lambda>x. x \<noteq> a) ?pl) = filter_mset (\<lambda>x. x \<noteq> a) (mset ?pl)"
      by simp
    also have "\<dots> = filter_mset (\<lambda>x. x \<noteq> a) (mset tracks + replicate_mset (length tracks div c) a)"
      by (simp only: m')
    also have "\<dots> = mset tracks"
      using a by (intro filter_other_replicate_mset) simp
    finally show "mset (filter (\<lambda>x. x \<noteq> a) ?pl) = mset tracks" .
  qed
  with r m show ?thesis by blast
qed

theorem create_playlist_keeps_tracks_witness:
  "0 < (2::nat)
   \<and> create_playlist zero_draws [11, 12, 13, 14, 15 :: nat] (Some 99) 2
       = Some ([12, 13, 14, 15, 11], [12, 13, 99, 14, 15, 99, 11])
   \<and> mset [12, 13, 99, 14, 15, 99, 11 :: nat] = mset [11, 12, 13, 14, 15] + {#99, 99#}
   \<and> mset (filter (\<lambda>x. x \<noteq> 99) [12, 13, 99, 14, 15, 99, 11 :: nat]) = mset [11, 12, 13, 14, 15]"
proof -
  have h: "0 < (2::nat)" by simp
  have s: "shuffle zero_draws [11, 12, 13, 14, 15 :: nat] = [12, 13, 14, 15, 11]"
    by (simp add: shuffle_def zero_draws_def randbelow_def Let_def numeral_eq_Suc)
  have c: "chunks_with_ads 2 (Some 99) [12, 13, 14, 15, 11 :: nat] = [12, 13, 99, 14, 15, 99, 11]"
    by code_simp
  have p: "create_playlist zero_draws [11, 12, 13, 14, 15 :: nat] (Some 99) 2
             = Some ([12, 13, 14, 15, 11], [12, 13, 99, 14, 15, 99, 11])"
    using create_playlist_returns_int [of 2 zero_draws "[11, 12, 13, 14, 15 :: nat]" "Some 99"]
    by (simp add: s c)
  from create_playlist_keeps_tracks [OF h, of zero_draws "[11, 12, 13, 14, 15 :: nat]" "Some 99"]
  show ?thesis by (simp add: p s)
qed

text \<open>
  Claim C3 as stated covers every cadence; at cadence 0, with two tracks, the call yields
  no playlist at all.
\<close>
theorem create_playlist_every_cadence_counterexample:
  "create_playlist zero_draws [11 :: nat, 12] (Some 99) 0 = None"
  by (simp add: create_playlist_diverges)

text \<open>
  Claim C9. The playlist is a function of the shuffled sequence, the ad and the cadence:
  it is what the chunking loop makes of the shuffled list. Feeding the shuffled sequence
  back under a random source that leaves every element in place gives the same result,
  and so do any two calls whose shuffles agree.
\<close>
theorem create_playlist_depends_on_shuffle_only:
  "create_playlist (fixed_draws (length tracks)) (shuffle g tracks) ad c
     = create_playlist g tracks ad c
   \<and> map_option snd (create_playlist g tracks ad c) = playlist_loop (shuffle g tracks) ad c 0 []
   \<and> (shuffle g' tracks' = shuffle g tracks \<longrightarrow>
        create_playlist g' tracks' ad c = create_playlist g tracks ad c)"
proof -
  have "shuffle (fixed_draws (length tracks)) (shuffle g tracks) = shuffle g tracks"
    using shuffle_fixed_draws [of "shuffle g tracks"] by (simp add: length_shuffle)
  then have "create_playlist (fixed_draws (length tracks)) (shuffle g tracks) ad c
               = create_playlist g tracks ad c"
    by (simp add: create_playlist_def)
  moreover have "map_option snd (create_playlist g tracks ad c)
                   = playlist_loop (shuffle g tracks) ad c 0 []"
    by (simp add: create_playlist_def Let_def option.map_comp comp_def option.map_ident)
  moreover have "shuffle g' tracks' = shuffle g tracks \<longrightarrow>
                   create_playlist g' tracks' ad c = create_playlist g tracks ad c"
    by (simp add: create_playlist_def)
  ultimately show ?thesis by blast
qed

theorem create_playlist_depends_on_shuffle_only_witness:
  "shuffle (fixed_draws 3) [12, 13, 11 :: nat] = shuffle zero_draws [11, 12, 13]
   \<and> create_playlist (fixed_draws 3) [12, 13, 11 :: nat] (Some 99) 2
       = create_playlist zero_draws [11, 12, 13] (Some 99) 2
   \<and> create_playlist zero_draws [11, 12, 13 :: nat] (Some 99) 2 = Some ([12, 13, 11], [12, 13, 99, 11])"
proof -
  have s: "shuffle zero_draws [11, 12, 13 :: nat] = [12, 13, 11]"
    by (simp add: shuffle_def zero_draws_def randbelow_def Let_def numeral_eq_Suc)
  have f: "shuffle (fixed_draws 3) [12, 13, 11 :: nat] = [12, 13, 11]"
    using shuffle_fixed_draws [of "[12, 13, 11 :: nat]"] by (simp add: numeral_3_eq_3)
  have c: "chunks_with_ads 2 (Some 99) [12, 13, 11 :: nat] = [12, 13, 99, 11]"
    by code_simp
  have p: "create_playlist zero_draws [11, 12, 13 :: nat] (Some 99) 2 = Some ([12, 13, 11], [12, 13, 99, 11])"
    using create_playlist_returns_int [of 2 zero_draws "[11, 12, 13 :: nat]" "Some 99"]
    by (simp add: s c)
  from create_playlist_depends_on_shuffle_only
         [of "[11, 12, 13 :: nat]" zero_draws "Some 99" 2 "fixed_draws 3" "[12, 13, 11]"]
  show ?thesis by (simp add: s f p)
qed

lemma shuffle_short: "length tracks \<le> 1 \<Longrightarrow> shuffle g tracks = tracks"
  by (cases tracks) (simp_all add: shuffle_def)

text \<open>
  Claim C10, as amended. The argument list after a call is the shuffled list: the same
  tracks, each as often as before, in the order the shuffle gave them. With a cadence of
  at least 1 the call returns. The order can change: for a list of two or more distinct
  tracks some random source leaves the list in another order than it was. It need not: a
  list of at most one track is never changed, and under the draws that pick \<open>j = i\<close>
  throughout every list is left as it was.
\<close>

theorem create_playlist_shuffles_argument:
  fixes c :: int
  shows "(0 < c \<longrightarrow> (\<exists>playlist. create_playlist g tracks ad c = Some (shuffle g tracks, playlist)))
   \<and> (\<forall>tracks' playlist. create_playlist g tracks ad c = Some (tracks', playlist) \<longrightarrow>
         tracks' = shuffle g tracks \<and> mset tracks' = mset tracks)
   \<and> (0 < c \<and> distinct tracks \<and> 2 \<le> length tracks \<longrightarrow>
         (\<exists>g' tracks' playlist.
            create_playlist g' tracks ad c = Some (tracks', playlist) \<and> tracks' \<noteq> tracks))
   \<and> (length tracks \<le> 1 \<longrightarrow> shuffle g tracks = tracks)
   \<and> shuffle (fixed_draws (length tracks)) tracks = tracks"
proof (intro conjI)
  show "0 < c \<longrightarrow> (\<exists>playlist. create_playlist g tracks ad c = Some (shuffle g tracks, playlist))"
    by (simp add: create_playlist_returns_int)
  show "\<forall>tracks' playlist. create_playlist g tracks ad c = Some (tracks', playlist) \<longrightarrow>
          tracks' = shuffle g tracks \<and> mset tracks' = mset tracks"
    by (auto simp add: create_playlist_def Let_def mset_shuffle)
  show "0 < c \<and> distinct tracks \<and> 2 \<le> length tracks \<longrightarrow>
          (\<exists>g' tracks' playlist.
             create_playlist g' tracks ad c = Some (tracks', playlist) \<and> tracks' \<noteq> tracks)"
  proof
    assume a: "0 < c \<and> distinct tracks \<and> 2 \<le> length tracks"
    then have "shuffle zero_draws tracks \<noteq> tracks"
      by (simp add: shuffle_zero_draws_moves)
    moreover have "create_playlist zero_draws tracks ad c
                     = Some (shuffle zero_draws tracks,
                             chunks_with_ads (nat c) ad (shuffle zero_draws tracks))"
      using a by (simp add: create_playlist_returns_int)
    ultimately show "\<exists>g' tracks' playlist.
                       create_playlist g' tracks ad c = Some (tracks', playlist) \<and> tracks' \<noteq> tracks"
      by blast
  qed
  show "length tracks \<le> 1 \<longrightarrow> shuffle g tracks = tracks"
    by (simp add: shuffle_short)
  show "shuffle (fixed_draws (length tracks)) tracks = tracks"
    by (rule shuffle_fixed_draws)
qed

theorem create_playlist_shuffles_argument_witness:
  "(0::int) < 2 \<and> distinct [11, 12, 13 :: nat] \<and> 2 \<le> length [11, 12, 13 :: nat]
   \<and> create_playlist zero_draws [11, 12, 13 :: nat] (Some 99) 2 = Some ([12, 13, 11], [12, 13, 99, 11])
   \<and> mset [12, 13, 11 :: nat] = mset [11, 12, 13]
   \<and> [12, 13, 11] \<noteq> [11, 12, 13 :: nat]"
proof -
  have s: "shuffle zero_draws [11, 12, 13 :: nat] = [12, 13, 11]"
    by (simp add: shuffle_def zero_draws_def randbelow_def Let_def numeral_eq_Suc)
  have c: "chunks_with_ads 2 (Some 99) [12, 13, 11 :: nat] = [12, 13, 99, 11]"
    by code_simp
  have p: "create_playlist zero_draws [11, 12, 13 :: nat] (Some 99) 2 = Some ([12, 13, 11], [12, 13, 99, 11])"
    using create_playlist_returns_int [of 2 zero_draws "[11, 12, 13 :: nat]" "Some 99"]
    by (simp add: s c)
  from create_playlist_shuffles_argument [of 2 zero_draws "[11, 12, 13 :: nat]" "Some 99"]
  show ?thesis by (simp add: p s)
qed

text \<open>
  Claim C10 as stated has every non-empty list changed by the call. A list of one track
  is the same list afterwards, and so is a list of three under the draws that pick
  \<open>j = i\<close>.
\<close>

theorem create_playlist_argument_unchanged_counterexample:
  "create_playlist zero_draws [11 :: nat] (Some 99) 1 = Some ([11], [11, 99])
   \<and> create_playlist (fixed_draws 3) [11, 12, 13 :: nat] (Some 99) 2
       = Some ([11, 12, 13], [11, 12, 99, 13])"
proof -
  have c1: "chunks_with_ads (Suc 0) (Some 99) [11 :: nat] = [11, 99]"
    by code_simp
  have a: "create_playlist zero_draws [11 :: nat] (Some 99) 1 = Some ([11], [11, 99])"
    using create_playlist_returns_int [of 1 zero_draws "[11 :: nat]" "Some 99"]
    by (simp add: shuffle_short c1)
  have f: "shuffle (fixed_draws 3) [11, 12, 13 :: nat] = [11, 12, 13]"
    using shuffle_fixed_draws [of "[11, 12, 13 :: nat]"] by (simp add: numeral_3_eq_3)
  have c2: "chunks_with_ads 2 (Some 99) [11, 12, 13 :: nat] = [11, 12, 99, 13]"
    by code_simp
  have b: "create_playlist (fixed_draws 3) [11, 12, 13 :: nat] (Some 99) 2
             = Some ([11, 12, 13], [11, 12, 99, 13])"
    using create_playlist_returns_int [of 2 "fixed_draws 3" "[11, 12, 13 :: nat]" "Some 99"]
    by (simp add: f c2)
  from a b show ?thesis by (rule conjI)
qed

section \<open>Properties of the durations and the cadence\<close>

subsection \<open>Float arithmetic\<close>

lemma py_round_of_int: "py_round (of_int z) = z"
  by (simp add: py_round_def Let_def)

lemma py_round_between: "\<lfloor>x\<rfloor> \<le> py_round x \<and> py_round x \<le> \<lceil>x\<rceil>"
proof (cases "x = of_int \<lfloor>x\<rfloor>")
  case True
  then have "py_round x = \<lfloor>x\<rfloor>"
    by (metis py_round_of_int)
  then show ?thesis by simp
next
  case False
  then have "\<lceil>x\<rceil> = \<lfloor>x\<rfloor> + 1"
    by (metis ceiling_altdef)
  then show ?thesis
    by (simp add: py_round_def Let_def)
qed

lemma py_round_abs_le:
  assumes "\<bar>x\<bar> \<le> of_int N"
  shows "\<bar>py_round x\<bar> \<le> N"
proof -
  have "x \<le> of_int N" "of_int (- N) \<le> x" using assms by auto
  then have "\<lceil>x\<rceil> \<le> N" "- N \<le> \<lfloor>x\<rfloor>"
    by (simp_all add: ceiling_le_iff le_floor_iff)
  with py_round_between [of x] show ?thesis by linarith
qed

lemma binary_exponent_bounds:
  assumes "x \<noteq> 0"
  shows "2 powi binary_exponent x \<le> \<bar>x\<bar> \<and> \<bar>x\<bar> < 2 powi (binary_exponent x + 1)"
proof (cases "1 \<le> \<bar>x\<bar>")
  case True
  define m where "m = \<lfloor>\<bar>x\<bar>\<rfloor>"
  have m: "0 < m" using True by (simp add: m_def)
  have e: "binary_exponent x = bitlen m - 1"
    using True by (simp add: binary_exponent_def m_def)
  have b1: "1 \<le> bitlen m" using m by (simp add: bitlen_alt_def)
  from bitlen_bounds [OF m] have lo: "2 ^ nat (bitlen m - 1) \<le> m" and hi: "m < 2 ^ nat (bitlen m)"
    by auto
  have "real_of_int (2 ^ nat (bitlen m - 1)) \<le> real_of_int m"
    using lo by (rule of_int_le_iff [THEN iffD2])
  also have "real_of_int m \<le> \<bar>x\<bar>" by (simp add: m_def)
  finally have l: "2 powi (bitlen m - 1) \<le> \<bar>x\<bar>"
    using b1 by (simp add: power_int_def)
  have "m + 1 \<le> 2 ^ nat (bitlen m)" using hi by simp
  then have "real_of_int (m + 1) \<le> real_of_int (2 ^ nat (bitlen m))"
    by (rule of_int_le_iff [THEN iffD2])
  moreover have "\<bar>x\<bar> < real_of_int (m + 1)" by (simp add: m_def)
  moreover have "real_of_int (2 ^ nat (bitlen m)) = 2 ^ nat (bitlen m)" by simp
  ultimately have "\<bar>x\<bar> < 2 ^ nat (bitlen m)" by linarith
  then have "\<bar>x\<bar> < 2 powi (bitlen m - 1 + 1)"
    using b1 by (simp add: power_int_def)
  with l e show ?thesis by simp
next
  case False
  define y where "y = 1 / \<bar>x\<bar>"
  define c where "c = \<lceil>y\<rceil>"
  have x: "0 < \<bar>x\<bar>" "\<bar>x\<bar> < 1" using False assms by auto
  then have y: "1 < y" by (simp add: y_def)
  then have c: "0 < c - 1" unfolding c_def by linarith
  define b where "b = bitlen (c - 1)"
  have e: "binary_exponent x = - b"
    using False by (simp add: binary_exponent_def b_def c_def y_def)
  have b1: "1 \<le> b" using c by (simp add: b_def bitlen_alt_def)
  from bitlen_bounds [OF c] have lo: "2 ^ nat (b - 1) \<le> c - 1" and hi: "c - 1 < 2 ^ nat b"
    by (auto simp add: b_def)
  have "c \<le> 2 ^ nat b" using hi by simp
  then have "real_of_int c \<le> real_of_int (2 ^ nat b)"
    by (rule of_int_le_iff [THEN iffD2])
  moreover have "y \<le> real_of_int c" by (simp add: c_def)
  moreover have "real_of_int (2 ^ nat b) = 2 ^ nat b" by simp
  ultimately have "y \<le> 2 ^ nat b" by linarith
  then have "1 / 2 ^ nat b \<le> \<bar>x\<bar>"
    using x by (simp add: y_def field_simps)
  then have l: "2 powi (- b) \<le> \<bar>x\<bar>"
    using b1 by (simp add: power_int_def field_simps)
  have "real_of_int (2 ^ nat (b - 1)) \<le> real_of_int (c - 1)"
    using lo by (rule of_int_le_iff [THEN iffD2])
  moreover have "real_of_int (c - 1) < y" unfolding c_def by linarith
  moreover have "real_of_int (2 ^ nat (b - 1)) = 2 ^ nat (b - 1)" by simp
  ultimately have "2 ^ nat (b - 1) < y" by linarith
  then have "\<bar>x\<bar> < 1 / 2 ^ nat (b - 1)"
    using x by (simp add: y_def field_simps)
  moreover have "2 powi (- b + 1) = (1::real) / 2 ^ nat (b - 1)"
    using b1 by (simp add: power_int_def field_simps nat_diff_distrib)
  ultimately have "\<bar>x\<bar> < 2 powi (- b + 1)" by simp
  with l e show ?thesis by simp
qed

lemma binary_exponent_eq:
  assumes "2 powi k \<le> \<bar>x\<bar>" "\<bar>x\<bar> < 2 powi (k + 1)"
  shows "binary_exponent x = k"
proof -
  have x: "x \<noteq> 0"
  proof
    assume "x = 0"
    with assms(1) have "(2::real) powi k \<le> 0" by simp
    moreover have "(0::real) < 2 powi k" by simp
    ultimately show False by linarith
  qed
  let ?e = "binary_exponent x"
  from binary_exponent_bounds [OF x]
  have "2 powi ?e \<le> \<bar>x\<bar>" "\<bar>x\<bar> < 2 powi (?e + 1)" by auto
  with assms have a: "(2::real) powi k < 2 powi (?e + 1)" and b: "(2::real) powi ?e < 2 powi (k + 1)"
    by linarith+
  have "k < ?e + 1"
  proof (rule ccontr)
    assume "\<not> k < ?e + 1"
    then have "?e + 1 \<le> k" by simp
    then have "(2::real) powi (?e + 1) \<le> 2 powi k"
      by (rule power_int_increasing) simp
    with a show False by simp
  qed
  moreover have "?e < k + 1"
  proof (rule ccontr)
    assume "\<not> ?e < k + 1"
    then have "k + 1 \<le> ?e" by simp
    then have "(2::real) powi (k + 1) \<le> 2 powi ?e"
      by (rule power_int_increasing) simp
    with b show False by simp
  qed
  ultimately show ?thesis by simp
qed


lemma power_int_less_imp_less:
  assumes "(2::real) powi a < 2 powi b"
  shows "a < b"
proof (rule ccontr)
  assume "\<not> a < b"
  then have "b \<le> a" by simp
  then have "(2::real) powi b \<le> 2 powi a"
    by (rule power_int_increasing) simp
  with assms show False by simp
qed

lemma nearest_double_exact:
  assumes "x = of_int m * 2 powi k" "\<bar>m\<bar> < 2 ^ 53" "- 1074 \<le> k"
  shows "nearest_double x = x"
proof (cases "x = 0")
  case True
  then show ?thesis by (simp add: nearest_double_def)
next
  case False
  define e where "e = binary_exponent x"
  define q where "q = max e (- 1022) - 52"
  from binary_exponent_bounds [OF False] have "2 powi e \<le> \<bar>x\<bar>"
    by (simp add: e_def)
  also have "\<bar>x\<bar> = \<bar>real_of_int m\<bar> * 2 powi k"
    by (simp add: assms(1) abs_mult)
  also have "\<dots> < 2 ^ 53 * 2 powi k"
  proof -
    have "real_of_int \<bar>m\<bar> < real_of_int (2 ^ 53)"
      using assms(2) by (rule of_int_less_iff [THEN iffD2])
    then have "\<bar>real_of_int m\<bar> < 2 ^ 53" by simp
    moreover have "(0::real) < 2 powi k" by simp
    ultimately show ?thesis by (rule mult_strict_right_mono)
  qed
  also have "(2::real) ^ 53 * 2 powi k = 2 powi (53 + k)"
    by (simp add: power_int_add)
  finally have "e < 53 + k" by (rule power_int_less_imp_less)
  with assms(3) have qk: "q \<le> k" by (simp add: q_def)
  have "x / 2 powi q = of_int m * 2 powi (k - q)"
    by (simp add: assms(1) power_int_diff)
  also have "(2::real) powi (k - q) = of_int (2 ^ nat (k - q))"
    using qk by (simp add: power_int_def)
  finally have "x / 2 powi q = of_int (m * 2 ^ nat (k - q))" by simp
  then have "py_round (x / 2 powi q) = m * 2 ^ nat (k - q)"
    by (simp only: py_round_of_int)
  then have "nearest_double x = of_int (m * 2 ^ nat (k - q)) * 2 powi q"
    using False by (simp add: nearest_double_def Let_def q_def e_def)
  also have "\<dots> = of_int m * (2 powi (k - q) * 2 powi q)"
    using qk by (simp add: power_int_def)
  also have "(2::real) powi (k - q) * 2 powi q = 2 powi k"
    by (simp add: power_int_diff)
  finally show ?thesis by (simp add: assms(1))
qed

lemma float_limit_half: "float_limit / 2 = 2 powi 1023"
  by (simp add: float_limit_def)

lemma nearest_double_bound:
  assumes "\<bar>x\<bar> < float_limit / 2"
  shows "\<bar>nearest_double x\<bar> \<le> float_limit / 2"
proof (cases "x = 0")
  case True
  then show ?thesis by (simp add: nearest_double_def float_limit_def)
next
  case False
  define e where "e = binary_exponent x"
  define q where "q = max e (- 1022) - 52"
  from binary_exponent_bounds [OF False]
  have lo: "2 powi e \<le> \<bar>x\<bar>" and hi: "\<bar>x\<bar> < 2 powi (e + 1)"
    by (simp_all add: e_def)
  have "(2::real) powi e < 2 powi 1023"
    using lo assms by (simp only: float_limit_half)
  then have e: "e < 1023" by (rule power_int_less_imp_less)
  have q: "e + 1 \<le> q + 53" "q + 53 \<le> 1023"
    using e by (simp_all add: q_def)
  have "\<bar>x / 2 powi q\<bar> = \<bar>x\<bar> / 2 powi q" by simp
  also have "\<dots> \<le> 2 powi (e + 1) / 2 powi q"
    using hi by (simp add: divide_right_mono)
  also have "\<dots> = 2 powi (e + 1 - q)"
    by (simp add: power_int_diff)
  also have "\<dots> \<le> 2 powi 53"
    using q(1) by (intro power_int_increasing) simp_all
  also have "(2::real) powi 53 = of_int (2 ^ 53)" by simp
  finally have "\<bar>py_round (x / 2 powi q)\<bar> \<le> 2 ^ 53"
    by (rule py_round_abs_le)
  then have "real_of_int \<bar>py_round (x / 2 powi q)\<bar> \<le> real_of_int (2 ^ 53)"
    by (rule of_int_le_iff [THEN iffD2])
  then have r: "\<bar>real_of_int (py_round (x / 2 powi q))\<bar> \<le> 2 powi 53" by simp
  have "nearest_double x = of_int (py_round (x / 2 powi q)) * 2 powi q"
    using False by (simp add: nearest_double_def Let_def q_def e_def)
  then have "\<bar>nearest_double x\<bar> = \<bar>real_of_int (py_round (x / 2 powi q))\<bar> * 2 powi q"
    by (simp add: abs_mult)
  also have "\<dots> \<le> 2 powi 53 * 2 powi q"
    using r by (rule mult_right_mono) simp
  also have "\<dots> = 2 powi (q + 53)"
    by (simp add: power_int_add)
  also have "\<dots> \<le> 2 powi 1023"
    using q(2) by (intro power_int_increasing) simp_all
  finally show ?thesis by (simp only: float_limit_half)
qed

lemma to_float_finite:
  "\<bar>x\<bar> < float_limit / 2 \<Longrightarrow> to_float x = Finite_Float (nearest_double x)"
proof -
  assume "\<bar>x\<bar> < float_limit / 2"
  then have "\<bar>nearest_double x\<bar> \<le> float_limit / 2" by (rule nearest_double_bound)
  moreover have "0 < float_limit" by (simp add: float_limit_def)
  ultimately have "\<not> float_limit \<le> \<bar>nearest_double x\<bar>" by linarith
  then show ?thesis by (simp add: to_float_def Let_def)
qed

lemma py_round_abs_ge:
  assumes "of_int N \<le> \<bar>x\<bar>"
  shows "N \<le> \<bar>py_round x\<bar>"
proof (cases "0 \<le> x")
  case True
  with assms have "of_int N \<le> x" by simp
  then have "N \<le> \<lfloor>x\<rfloor>" by (simp add: le_floor_iff)
  with py_round_between [of x] show ?thesis by linarith
next
  case False
  with assms have "x \<le> of_int (- N)" by simp
  then have "\<lceil>x\<rceil> \<le> - N" by (simp only: ceiling_le_iff)
  with py_round_between [of x] show ?thesis by linarith
qed

lemma float_limit_powi: "float_limit = 2 powi 1024"
  by (simp add: float_limit_def)

lemma nearest_double_overflow:
  assumes "float_limit \<le> \<bar>x\<bar>"
  shows "float_limit \<le> \<bar>nearest_double x\<bar>"
proof -
  have "0 < float_limit" by (simp add: float_limit_def)
  with assms have x: "x \<noteq> 0" by auto
  define e where "e = binary_exponent x"
  define q where "q = e - 52"
  from binary_exponent_bounds [OF x]
  have lo: "2 powi e \<le> \<bar>x\<bar>" and hi: "\<bar>x\<bar> < 2 powi (e + 1)"
    by (simp_all add: e_def)
  have "(2::real) powi 1024 < 2 powi (e + 1)"
    using hi assms by (simp only: float_limit_powi)
  then have "1024 < e + 1" by (rule power_int_less_imp_less)
  then have e: "1024 \<le> e" by simp
  then have m: "max e (- 1022) - 52 = q" by (simp add: q_def)
  have eq: "(2::real) powi e = 2 powi 52 * 2 powi q"
  proof -
    have "(2::real) powi (52 + q) = 2 powi 52 * 2 powi q"
      by (rule power_int_add) simp
    moreover have "52 + q = e" by (simp add: q_def)
    ultimately show ?thesis by simp
  qed
  have "real_of_int (2 ^ 52) * 2 powi q = 2 powi e"
    by (simp add: eq)
  also have "\<dots> \<le> \<bar>x\<bar>" by (rule lo)
  finally have "real_of_int (2 ^ 52) \<le> \<bar>x\<bar> / 2 powi q"
    by (simp add: field_simps)
  also have "\<dots> = \<bar>x / 2 powi q\<bar>" by simp
  finally have "2 ^ 52 \<le> \<bar>py_round (x / 2 powi q)\<bar>"
    by (rule py_round_abs_ge)
  then have "real_of_int (2 ^ 52) \<le> real_of_int \<bar>py_round (x / 2 powi q)\<bar>"
    by (rule of_int_le_iff [THEN iffD2])
  then have r: "2 powi 52 \<le> \<bar>real_of_int (py_round (x / 2 powi q))\<bar>" by simp
  have "float_limit = 2 powi 1024" by (rule float_limit_powi)
  also have "\<dots> \<le> 2 powi e"
    using e by (intro power_int_increasing) simp_all
  also have "\<dots> = 2 powi 52 * 2 powi q" by (rule eq)
  also have "\<dots> \<le> \<bar>real_of_int (py_round (x / 2 powi q))\<bar> * 2 powi q"
    using r by (rule mult_right_mono) simp
  also have "\<dots> = \<bar>nearest_double x\<bar>"
    using x m by (simp add: nearest_double_def Let_def e_def abs_mult)
  finally show ?thesis .
qed

lemma to_float_infinity: "float_limit \<le> \<bar>x\<bar> \<Longrightarrow> to_float x = Infinity"
  by (simp add: to_float_def Let_def nearest_double_overflow)

lemma int_to_float_exact:
  assumes "\<bar>n\<bar> < 2 ^ 53"
  shows "int_to_float n = Inr (of_int n)"
proof -
  have e: "nearest_double (of_int n) = of_int n"
    using assms by (intro nearest_double_exact [of _ n 0]) simp_all
  have "real_of_int \<bar>n\<bar> < real_of_int (2 ^ 53)"
    using assms by (rule of_int_less_iff [THEN iffD2])
  then have "\<bar>real_of_int n\<bar> < 2 ^ 53" by simp
  moreover have "(2::real) ^ 53 < float_limit" by (simp add: float_limit_def)
  ultimately have "\<not> float_limit \<le> \<bar>real_of_int n\<bar>" by linarith
  then show ?thesis
    by (simp add: int_to_float_def to_float_def Let_def e)
qed

lemma round_quotient_returns:
  assumes "\<bar>n\<bar> < 2 ^ 53" "0 < d" "\<bar>real_of_int n\<bar> < float_limit / 2 * d"
  shows "round_quotient n d = Inr (py_round (nearest_double (of_int n / d)))"
proof -
  have "\<bar>real_of_int n / d\<bar> = \<bar>real_of_int n\<bar> / d"
    using assms(2) by simp
  also have "\<dots> < float_limit / 2"
    using assms(2,3) by (simp add: field_simps)
  finally have "to_float (of_int n / d) = Finite_Float (nearest_double (of_int n / d))"
    by (rule to_float_finite)
  then show ?thesis
    by (simp add: round_quotient_def int_to_float_exact [OF assms(1)])
qed

lemma round_quotient_overflow:
  assumes "\<bar>n\<bar> < 2 ^ 53" "0 < d" "float_limit * d \<le> \<bar>real_of_int n\<bar>"
  shows "round_quotient n d = Inl OverflowError"
proof -
  have "float_limit \<le> \<bar>real_of_int n\<bar> / d"
    using assms(2,3) by (simp add: field_simps)
  also have "\<dots> = \<bar>real_of_int n / d\<bar>"
    using assms(2) by simp
  finally have "to_float (of_int n / d) = Infinity"
    by (rule to_float_infinity)
  then show ?thesis
    by (simp add: round_quotient_def int_to_float_exact [OF assms(1)])
qed

lemma round_quotient_int_overflow:
  assumes "float_limit \<le> \<bar>real_of_int n\<bar>"
  shows "round_quotient n d = Inl OverflowError"
proof -
  from assms have "to_float (of_int n) = Infinity" by (rule to_float_infinity)
  then show ?thesis
    by (simp add: round_quotient_def int_to_float_def)
qed

lemma round_quotient_error: "round_quotient n d = Inl x \<Longrightarrow> x = OverflowError"
  by (cases "to_float (of_int n)"; cases "to_float (nearest_double (of_int n) / d)")
    (auto simp add: round_quotient_def int_to_float_def to_float_def Let_def
      split: sum.splits float.splits if_splits)

subsection \<open>The cadence\<close>

text \<open>
  Claim C4, as amended. The cadence is 0 when the average duration is 0, whatever the
  interval. For an average \<open>d\<close> other than 0 the only exception is \<open>OverflowError\<close>, and a
  cadence that is returned is \<open>max(1, round(x * 60 / d))\<close>, at least 1. For \<open>d > 0\<close> it is
  returned whenever \<open>x * 60\<close> is below \<open>2 ^ 53\<close> and the quotient below \<open>2 ^ 1023\<close> in
  magnitude, and is then the rounded double nearest to the quotient; it is not returned
  when \<open>x * 60\<close> reaches \<open>2 ^ 1024\<close>, or when \<open>x * 60\<close> is below \<open>2 ^ 53\<close> and the quotient
  reaches \<open>2 ^ 1024\<close>.
\<close>
theorem songs_between_ads_floor_of_one:
  "songs_between_ads x 0 = Inr 0
   \<and> (0 < d \<and> \<bar>x * 60\<bar> < 2 ^ 53 \<and> \<bar>real_of_int (x * 60)\<bar> < float_limit / 2 * d \<longrightarrow>
        songs_between_ads x d
          = Inr (max 1 (py_round (nearest_double (of_int (x * 60) / d)))))
   \<and> (d \<noteq> 0 \<longrightarrow>
        songs_between_ads x d = Inl OverflowError
      \<or> (\<exists>r. round_quotient (x * 60) d = Inr r \<and> songs_between_ads x d = Inr (max 1 r)))
   \<and> (\<forall>v. d \<noteq> 0 \<and> songs_between_ads x d = Inr v \<longrightarrow> 1 \<le> v)
   \<and> (d \<noteq> 0 \<and> float_limit \<le> \<bar>real_of_int (x * 60)\<bar> \<longrightarrow>
        songs_between_ads x d = Inl OverflowError)
   \<and> (0 < d \<and> \<bar>x * 60\<bar> < 2 ^ 53 \<and> float_limit * d \<le> \<bar>real_of_int (x * 60)\<bar> \<longrightarrow>
        songs_between_ads x d = Inl OverflowError)"
proof (intro conjI)
  show "songs_between_ads x 0 = Inr 0"
    by (simp add: songs_between_ads_def)
  show "0 < d \<and> \<bar>x * 60\<bar> < 2 ^ 53 \<and> \<bar>real_of_int (x * 60)\<bar> < float_limit / 2 * d \<longrightarrow>
        songs_between_ads x d
          = Inr (max 1 (py_round (nearest_double (of_int (x * 60) / d))))"
  proof
    assume a: "0 < d \<and> \<bar>x * 60\<bar> < 2 ^ 53 \<and> \<bar>real_of_int (x * 60)\<bar> < float_limit / 2 * d"
    then have "round_quotient (x * 60) d
                 = Inr (py_round (nearest_double (of_int (x * 60) / d)))"
      by (intro round_quotient_returns) simp_all
    with a show "songs_between_ads x d
          = Inr (max 1 (py_round (nearest_double (of_int (x * 60) / d))))"
      by (simp add: songs_between_ads_def)
  qed
  show "d \<noteq> 0 \<longrightarrow>
        songs_between_ads x d = Inl OverflowError
      \<or> (\<exists>r. round_quotient (x * 60) d = Inr r \<and> songs_between_ads x d = Inr (max 1 r))"
  proof (cases "round_quotient (x * 60) d")
    case (Inl err)
    then have "err = OverflowError" by (rule round_quotient_error)
    with Inl show ?thesis by (simp add: songs_between_ads_def)
  next
    case (Inr r)
    then show ?thesis by (simp add: songs_between_ads_def)
  qed
  show "\<forall>v. d \<noteq> 0 \<and> songs_between_ads x d = Inr v \<longrightarrow> 1 \<le> v"
    by (auto simp add: songs_between_ads_def split: sum.splits)
  show "d \<noteq> 0 \<and> float_limit \<le> \<bar>real_of_int (x * 60)\<bar> \<longrightarrow>
        songs_between_ads x d = Inl OverflowError"
  proof
    assume a: "d \<noteq> 0 \<and> float_limit \<le> \<bar>real_of_int (x * 60)\<bar>"
    then have "round_quotient (x * 60) d = Inl OverflowError"
      by (intro round_quotient_int_overflow) simp
    with a show "songs_between_ads x d = Inl OverflowError"
      by (simp add: songs_between_ads_def)
  qed
  show "0 < d \<and> \<bar>x * 60\<bar> < 2 ^ 53 \<and> float_limit * d \<le> \<bar>real_of_int (x * 60)\<bar> \<longrightarrow>
        songs_between_ads x d = Inl OverflowError"
  proof
    assume a: "0 < d \<and> \<bar>x * 60\<bar> < 2 ^ 53 \<and> float_limit * d \<le> \<bar>real_of_int (x * 60)\<bar>"
    then have "round_quotient (x * 60) d = Inl OverflowError"
      by (intro round_quotient_overflow) simp_all
    with a show "songs_between_ads x d = Inl OverflowError"
      by (simp add: songs_between_ads_def)
  qed
qed

lemma nearest_double_9_2: "nearest_double (9 / 2) = 9 / 2"
  by (rule nearest_double_exact [of _ 9 "- 1"]) simp_all

lemma nearest_double_1_4: "nearest_double (1 / 4) = 1 / 4"
  by (rule nearest_double_exact [of _ 1 "- 2"]) simp_all

lemma nearest_double_quotient_4_8:
  "nearest_double (60 / (5404319552844595 / 2 ^ 50)) = 25 / 2"
proof -
  let ?x = "60 / (5404319552844595 / 2 ^ 50) :: real"
  have e: "binary_exponent ?x = 3"
    by (rule binary_exponent_eq) simp_all
  have r: "py_round (?x / 2 powi (- 49)) = 7036874417766400"
    by (simp add: py_round_def Let_def)
  have "?x \<noteq> 0" by simp
  then have "nearest_double ?x = of_int (py_round (?x / 2 powi (- 49))) * 2 powi (- 49)"
    by (simp only: nearest_double_def Let_def e) simp
  also have "\<dots> = 25 / 2"
    by (simp only: r) simp
  finally show ?thesis .
qed

theorem songs_between_ads_floor_of_one_witness:
  "songs_between_ads 15 0 = Inr 0
   \<and> songs_between_ads 15 200 = Inr 4
   \<and> songs_between_ads 1 240 = Inr 1
   \<and> songs_between_ads 1 (5404319552844595 / 2 ^ 50) = Inr 12"
proof -
  have l: "(200::real) * 2 ^ 54 < float_limit" by (simp add: float_limit_def)
  have h1: "(0::real) < 200 \<and> \<bar>15 * 60 :: int\<bar> < 2 ^ 53
             \<and> \<bar>real_of_int (15 * 60)\<bar> < float_limit / 2 * 200"
    using l by simp
  have h2: "(0::real) < 240 \<and> \<bar>1 * 60 :: int\<bar> < 2 ^ 53
             \<and> \<bar>real_of_int (1 * 60)\<bar> < float_limit / 2 * 240"
    using l by simp
  define d where "d = (5404319552844595 / 2 ^ 50 :: real)"
  have h3: "0 < d \<and> \<bar>1 * 60 :: int\<bar> < 2 ^ 53
             \<and> \<bar>real_of_int (1 * 60)\<bar> < float_limit / 2 * d"
    using l by (simp add: d_def)
  have n3: "nearest_double (60 / d) = 25 / 2"
    by (simp only: d_def nearest_double_quotient_4_8)
  have r1: "py_round (9 / 2) = 4" and r2: "py_round (1 / 4) = 0" and r3: "py_round (25 / 2) = 12"
    by (simp_all add: py_round_def Let_def)
  from songs_between_ads_floor_of_one [of 15 200] h1
  have a: "songs_between_ads 15 0 = Inr 0" "songs_between_ads 15 200 = Inr 4"
    by (simp_all add: nearest_double_9_2 r1)
  from songs_between_ads_floor_of_one [of 1 240] h2
  have b: "songs_between_ads 1 240 = Inr 1"
    by (simp add: nearest_double_1_4 r2)
  from songs_between_ads_floor_of_one [of 1 d] h3
  have c: "songs_between_ads 1 d = Inr 12"
    by (simp add: n3 r3)
  from a b c [unfolded d_def] show ?thesis by (intro conjI)
qed

text \<open>
  Claim C4 as stated promises a cadence for every positive average. With the smallest
  positive double as the average, or with an interval of \<open>10 ^ 400\<close> minutes, the code
  raises \<open>OverflowError\<close> instead.
\<close>
theorem songs_between_ads_overflow_counterexample:
  "(0::real) < 2 powi (- 1074)
   \<and> songs_between_ads 15 (2 powi (- 1074)) = Inl OverflowError
   \<and> songs_between_ads (10 ^ 400) 200 = Inl OverflowError"
proof -
  have d: "(0::real) < 2 powi (- 1074)" by simp
  have "float_limit * 2 powi (- 1074) = 2 powi (- 50)"
    by (simp add: float_limit_def)
  also have "\<dots> \<le> \<bar>real_of_int 900\<bar>"
    by simp
  finally have "round_quotient 900 (2 powi (- 1074)) = Inl OverflowError"
    by (intro round_quotient_overflow) simp_all
  then have a: "songs_between_ads 15 (2 powi (- 1074)) = Inl OverflowError"
    by (simp add: songs_between_ads_def)
  have "float_limit \<le> \<bar>real_of_int (10 ^ 400 * 60)\<bar>"
    by (simp add: float_limit_def)
  then have "round_quotient (10 ^ 400 * 60) 200 = Inl OverflowError"
    by (rule round_quotient_int_overflow)
  then have b: "songs_between_ads (10 ^ 400) 200 = Inl OverflowError"
    by (simp add: songs_between_ads_def)
  from d a b show ?thesis by simp
qed

subsection \<open>The durations\<close>








section \<open>Properties of the playlist file\<close>

lemma relative_to_grandparent: "relative_to p (parent (parent p)) = Inr (last_two p)"
proof -
  have pp: "tail (parent (parent p)) = butlast (butlast (tail p))"
    "anchor (parent (parent p)) = anchor p"
    by (simp_all add: parent_def)
  have "prefix (butlast (butlast (tail p))) (butlast (tail p))"
    "prefix (butlast (tail p)) (tail p)"
    by (rule prefixeq_butlast)+
  then have pre: "prefix (butlast (butlast (tail p))) (tail p)"
    by (rule prefix_order.trans)
  have len: "length (butlast (butlast (tail p))) = length (tail p) - 2"
    by (simp add: numeral_2_eq_2)
  show ?thesis
    unfolding relative_to_def last_two_def pp len using pre by simp
qed

lemma relative_lines_last_two:
  "relative_lines playlist = Inr (map (\<lambda>p. str (last_two p)) playlist)"
  by (induction playlist) (simp_all add: relative_to_grandparent)

lemma playlist_text_join:
  "playlist_text playlist = Inr (join [newline] (map (\<lambda>p. str (last_two p)) playlist))"
  by (simp add: playlist_text_def relative_lines_last_two)

lemma split_on_no_sep: "sep \<notin> set w \<Longrightarrow> split_on sep w = [w]"
  by (induction w) auto

lemma split_on_append_sep:
  "sep \<notin> set w \<Longrightarrow> split_on sep (w @ sep # rest) = w # split_on sep rest"
  by (induction w) auto

lemma split_on_join:
  "ls \<noteq> [] \<Longrightarrow> \<forall>l \<in> set ls. sep \<notin> set l \<Longrightarrow> split_on sep (join [sep] ls) = ls"
proof (induction "[sep]" ls rule: join.induct)
  case 1
  then show ?case by simp
next
  case (2 x)
  then show ?case by (simp add: split_on_no_sep)
next
  case (3 x y ys)
  then show ?case by (simp add: split_on_append_sep)
qed

lemma set_join: "set (join sep xs) \<subseteq> set sep \<union> \<Union> (set ` set xs)"
  by (induction sep xs rule: join.induct) auto

lemma newline_not_in_line:
  assumes "\<forall>s \<in> set (tail (last_two p)). newline \<notin> set s"
  shows "newline \<notin> set (str (last_two p))"
proof
  assume n: "newline \<in> set (str (last_two p))"
  let ?t = "tail (last_two p)"
  have "anchor (last_two p) = []"
    by (simp add: last_two_def)
  then have s: "str (last_two p) = (if ?t = [] then ''.'' else join ''/'' ?t)"
    by (simp add: str_def)
  show False
  proof (cases "?t = []")
    case True
    with n s show False by (simp add: newline_def)
  next
    case False
    with n s have "newline \<in> set (join ''/'' ?t)"
      by simp
    with set_join [of "''/''" ?t] have "newline \<in> set ''/'' \<union> \<Union> (set ` set ?t)"
      by blast
    then obtain s where "s \<in> set ?t" "newline \<in> set s"
      by (auto simp add: newline_def)
    with assms show False by blast
  qed
qed

lemma str_last_two:
  "tail p = pre @ [d, f] \<Longrightarrow> str (last_two p) = d @ ''/'' @ f"
  by (simp add: str_def last_two_def)

lemma write_playlist_cases:
  "write_playlist e playlist trace
     = (let f = joinpath (playlist_directory e) ''jukebox.m3u'';
            text = join [newline] (map (\<lambda>p. str (last_two p)) playlist)
        in if \<not> fs_can_open e f then (Raised OSError, trace)
           else if \<not> fs_can_write e f text then (Raised OSError, trace @ [Open_File f])
           else (Returned, trace @ [Open_File f, Write_File f text]))"
  by (simp add: write_playlist_def Let_def playlist_text_join)

text \<open>
  Claim C7, as amended. The text of \<open>jukebox.m3u\<close> is the entries' relative paths joined
  by newlines and nothing else; it is written where the file can be opened and written,
  and otherwise the run ends in \<open>OSError\<close>. \<open>relative_to\<close> the directory two levels up
  never raises and gives the last two components, \<open>folder/file\<close>. Where neither of them
  holds a newline in any entry, cutting the text at its newlines gives back one line
  for each entry, in order; the text of an empty playlist is empty.
\<close>

theorem playlist_file_lines:
  "playlist_text playlist = Inr (join [newline] (map (\<lambda>p. str (last_two p)) playlist))
   \<and> write_playlist e playlist trace
       = (let f = joinpath (playlist_directory e) ''jukebox.m3u'';
              text = join [newline] (map (\<lambda>p. str (last_two p)) playlist)
          in if \<not> fs_can_open e f then (Raised OSError, trace)
             else if \<not> fs_can_write e f text then (Raised OSError, trace @ [Open_File f])
             else (Returned, trace @ [Open_File f, Write_File f text]))
   \<and> (\<forall>p. relative_to p (parent (parent p)) = Inr (last_two p))
   \<and> (\<forall>p pre d f. tail p = pre @ [d, f] \<longrightarrow> str (last_two p) = d @ ''/'' @ f)
   \<and> (playlist \<noteq> []
        \<and> (\<forall>p \<in> set playlist. \<forall>s \<in> set (tail (last_two p)). newline \<notin> set s) \<longrightarrow>
        split_on newline (join [newline] (map (\<lambda>p. str (last_two p)) playlist))
          = map (\<lambda>p. str (last_two p)) playlist)
   \<and> (playlist = [] \<longrightarrow> join [newline] (map (\<lambda>p. str (last_two p)) playlist) = [])"
proof (intro conjI)
  show "playlist_text playlist = Inr (join [newline] (map (\<lambda>p. str (last_two p)) playlist))"
    by (rule playlist_text_join)
  show "write_playlist e playlist trace
       = (let f = joinpath (playlist_directory e) ''jukebox.m3u'';
              text = join [newline] (map (\<lambda>p. str (last_two p)) playlist)
          in if \<not> fs_can_open e f then (Raised OSError, trace)
             else if \<not> fs_can_write e f text then (Raised OSError, trace @ [Open_File f])
             else (Returned, trace @ [Open_File f, Write_File f text]))"
    by (rule write_playlist_cases)
  show "\<forall>p. relative_to p (parent (parent p)) = Inr (last_two p)"
    by (simp add: relative_to_grandparent)
  show "\<forall>p pre d f. tail p = pre @ [d, f] \<longrightarrow> str (last_two p) = d @ ''/'' @ f"
    by (simp add: str_last_two)
  show "playlist \<noteq> []
        \<and> (\<forall>p \<in> set playlist. \<forall>s \<in> set (tail (last_two p)). newline \<notin> set s) \<longrightarrow>
        split_on newline (join [newline] (map (\<lambda>p. str (last_two p)) playlist))
          = map (\<lambda>p. str (last_two p)) playlist"
  proof
    assume a: "playlist \<noteq> []
        \<and> (\<forall>p \<in> set playlist. \<forall>s \<in> set (tail (last_two p)). newline \<notin> set s)"
    then have "\<forall>l \<in> set (map (\<lambda>p. str (last_two p)) playlist). newline \<notin> set l"
      by (auto simp add: newline_not_in_line)
    moreover have "map (\<lambda>p. str (last_two p)) playlist \<noteq> []"
      using a by simp
    ultimately show "split_on newline (join [newline] (map (\<lambda>p. str (last_two p)) playlist))
          = map (\<lambda>p. str (last_two p)) playlist"
      by (rule split_on_join [rotated])
  qed
  show "playlist = [] \<longrightarrow> join [newline] (map (\<lambda>p. str (last_two p)) playlist) = []"
    by simp
qed

theorem playlist_file_lines_witness:
  "playlist_text [abs_path [''music'', ''rock'', ''a.flac''], abs_path [''music'', ''ads'', ''ad.mp3'']]
     = Inr (''rock/a.flac'' @ [newline] @ ''ads/ad.mp3'')
   \<and> split_on newline (''rock/a.flac'' @ [newline] @ ''ads/ad.mp3'') = [''rock/a.flac'', ''ads/ad.mp3'']
   \<and> write_playlist (library_env [])
        [abs_path [''music'', ''rock'', ''a.flac''], abs_path [''music'', ''ads'', ''ad.mp3'']] []
       = (Returned,
          [Open_File (abs_path [''lists'', ''jukebox.m3u'']),
           Write_File (abs_path [''lists'', ''jukebox.m3u''])
             (''rock/a.flac'' @ [newline] @ ''ads/ad.mp3'')])"
proof -
  let ?pl = "[abs_path [''music'', ''rock'', ''a.flac''], abs_path [''music'', ''ads'', ''ad.mp3'']]"
  have a: "str (last_two (abs_path [''music'', ''rock'', ''a.flac''])) = ''rock/a.flac''"
    by (simp add: str_def last_two_def abs_path_def)
  have b: "str (last_two (abs_path [''music'', ''ads'', ''ad.mp3''])) = ''ads/ad.mp3''"
    by (simp add: str_def last_two_def abs_path_def)
  have n: "?pl \<noteq> [] \<and> (\<forall>p \<in> set ?pl. \<forall>s \<in> set (tail (last_two p)). newline \<notin> set s)"
    by (simp add: abs_path_def last_two_def newline_def)
  have f: "joinpath (playlist_directory (library_env [])) ''jukebox.m3u''
             = abs_path [''lists'', ''jukebox.m3u'']"
    by (simp add: joinpath_def library_env_def abs_path_def)
  have w: "fs_can_open (library_env []) (abs_path [''lists'', ''jukebox.m3u''])"
    "\<And>text. fs_can_write (library_env []) (abs_path [''lists'', ''jukebox.m3u'']) text"
    by (simp_all add: library_env_def)
  from playlist_file_lines [of ?pl "library_env []" "[]"] n show ?thesis
    by (simp add: a b f w Let_def)
qed

text \<open>
  Claim C7 as stated promises one line for each entry. An entry whose file name holds a
  newline takes two: a playlist of two entries gives a text of three lines.
\<close>

theorem playlist_file_newline_counterexample:
  "playlist_text
     [abs_path [''music'', ''rock'', ''a.mp3''],
      abs_path [''music'', ''rock'', ''x'' @ [newline] @ ''y.mp3'']]
     = Inr (''rock/a.mp3'' @ [newline] @ ''rock/x'' @ [newline] @ ''y.mp3'')
   \<and> split_on newline (''rock/a.mp3'' @ [newline] @ ''rock/x'' @ [newline] @ ''y.mp3'')
       = [''rock/a.mp3'', ''rock/x'', ''y.mp3'']"
proof -
  have "playlist_text
     [abs_path [''music'', ''rock'', ''a.mp3''],
      abs_path [''music'', ''rock'', ''x'' @ [newline] @ ''y.mp3'']]
     = Inr (''rock/a.mp3'' @ [newline] @ ''rock/x'' @ [newline] @ ''y.mp3'')"
    by (simp add: playlist_text_join str_def last_two_def abs_path_def)
  moreover have "split_on newline (''rock/a.mp3'' @ [newline] @ ''rock/x'' @ [newline] @ ''y.mp3'')
       = [''rock/a.mp3'', ''rock/x'', ''y.mp3'']"
    by (simp add: newline_def)
  ultimately show ?thesis by (rule conjI)
qed

section \<open>Properties of \<open>main\<close>\<close>

lemma assemble_returns: "\<exists>result. assemble e tracks ad_file avg_duration = Some result"
  by (cases "round_quotient (ad_every e * 60) avg_duration")
    (simp_all add: assemble_def create_playlist_returns_int)

lemma assemble_without_average:
  "\<not> 0 < avg_duration \<Longrightarrow> assemble e tracks ad_file avg_duration = Some (Inr tracks)"
  by (simp add: assemble_def)

lemma write_playlist_events:
  "\<exists>out evs. write_playlist e playlist trace = (out, trace @ evs)
     \<and> \<not> list_ex is_select evs"
  by (simp add: write_playlist_cases Let_def)

lemma finish_events:
  "\<exists>out evs. finish e tracks ad_file trace = Some (out, trace @ evs) \<and> \<not> list_ex is_select evs"
proof (cases "tracks = []")
  case True
  then show ?thesis by (simp add: finish_def)
next
  case False
  let ?avg = "get_average_duration (MutagenFile e) tracks"
  obtain result where p: "assemble e tracks ad_file ?avg = Some result"
    using assemble_returns by blast
  show ?thesis
  proof (cases result)
    case (Inl x)
    with False p have "finish e tracks ad_file trace = Some (Raised x, trace @ [])"
      by (simp add: finish_def Let_def)
    then show ?thesis by force
  next
    case (Inr playlist)
    note r = Inr
    show ?thesis
    proof (cases "?avg = 0")
      case True
      obtain out evs
        where w: "write_playlist e playlist (trace @ [Print No_Average_Duration])
                    = (out, (trace @ [Print No_Average_Duration]) @ evs)"
          and n: "\<not> list_ex is_select evs"
        using write_playlist_events by blast
      have "finish e tracks ad_file trace
              = Some (write_playlist e playlist (trace @ [Print No_Average_Duration]))"
        using False p r True by (simp add: finish_def Let_def)
      with w have "finish e tracks ad_file trace
                     = Some (out, trace @ ([Print No_Average_Duration] @ evs))"
        by simp
      moreover have "\<not> list_ex is_select ([Print No_Average_Duration] @ evs)"
        using n by simp
      ultimately show ?thesis by blast
    next
      case False
      note nz = False
      show ?thesis
      proof (cases "songs_between_ads (ad_every e) ?avg")
        case (Inl x)
        with \<open>tracks \<noteq> []\<close> p r nz
        have "finish e tracks ad_file trace = Some (Raised x, trace @ [])"
          by (simp add: finish_def Let_def)
        then show ?thesis by force
      next
        case (Inr n)
        let ?t1 = "[Print (Estimated_Total (total_duration (MutagenFile e) playlist)),
                    Print (Ads_Every_Songs n (?avg / 60))]"
        obtain out evs
          where w: "write_playlist e playlist (trace @ ?t1) = (out, (trace @ ?t1) @ evs)"
            and n: "\<not> list_ex is_select evs"
          using write_playlist_events by blast
        have "finish e tracks ad_file trace = Some (write_playlist e playlist (trace @ ?t1))"
          using \<open>tracks \<noteq> []\<close> p r nz Inr by (simp add: finish_def Let_def)
        with w have "finish e tracks ad_file trace = Some (out, trace @ (?t1 @ evs))"
          by simp
        moreover have "\<not> list_ex is_select (?t1 @ evs)"
          using n by simp
        ultimately show ?thesis by blast
      qed
    qed
  qed
qed

lemma select_entry_shape:
  "(\<exists>x. select_entry e n instruction kind directory msg trace = (Inl (Raised x), trace))
   \<or> (\<exists>values. select_entry e n instruction kind directory msg trace
         = (Inl (Exit 1 msg), trace @ [Select instruction values None]))
   \<or> (\<exists>values choice out. select_entry e n instruction kind directory msg trace
         = (Inl out, trace @ [Select instruction values (Some choice)]))
   \<or> (\<exists>values choice found. select_entry e n instruction kind directory msg trace
         = (Inr found, trace @ [Select instruction values (Some choice)]))"
  by (simp add: select_entry_def Let_def split: option.split list.split)

lemma cancelled_is_select: "cancelled ev \<Longrightarrow> is_select ev"
  by (cases ev) simp_all

lemma no_select_no_cancel: "\<not> list_ex is_select evs \<Longrightarrow> \<not> list_ex cancelled evs"
  by (auto simp add: list_ex_iff cancelled_is_select)

lemma select_entry_stops:
  assumes "list_all is_select t" "\<not> list_ex cancelled t"
    and "map instruction_of t = take (length t) instructions"
    and "length t < 3"
    and "select_entry e n (instructions ! length t) kind d (cancel_messages ! length t) t
           = (Inl out, t')"
  shows "(list_ex cancelled t' \<longrightarrow>
          cancelled (last t') \<and> \<not> list_ex cancelled (butlast t')
        \<and> list_all is_select t' \<and> length t' \<le> 3
        \<and> map instruction_of t' = take (length t') instructions
        \<and> out = Exit 1 (cancel_messages ! (length t' - 1)))"
proof -
  have len: "length t < length instructions"
    using assms(4) by (simp add: instructions_def)
  have tk: "take (length t) instructions @ [instructions ! length t]
              = take (Suc (length t)) instructions"
    using len by (simp add: take_Suc_conv_app_nth)
  from select_entry_shape [of e n "instructions ! length t" kind d "cancel_messages ! length t" t]
  consider "t' = t"
    | vs where "t' = t @ [Select (instructions ! length t) vs None]"
        "out = Exit 1 (cancel_messages ! length t)"
    | vs choice where "t' = t @ [Select (instructions ! length t) vs (Some choice)]"
    using assms(5) by auto
  then show ?thesis
  proof cases
    case 1
    with assms(2) show ?thesis by simp
  next
    case 2
    with assms(1-4) tk show ?thesis by simp
  next
    case 3
    with assms(2) show ?thesis by simp
  qed
qed

lemma select_entry_goes_on:
  assumes "list_all is_select t" "\<not> list_ex cancelled t"
    and "map instruction_of t = take (length t) instructions"
    and "length t < 3"
    and "select_entry e n (instructions ! length t) kind d (cancel_messages ! length t) t
           = (Inr found, t')"
  shows "list_all is_select t' \<and> \<not> list_ex cancelled t'
         \<and> map instruction_of t' = take (length t') instructions
         \<and> length t' = Suc (length t)"
proof -
  have len: "length t < length instructions"
    using assms(4) by (simp add: instructions_def)
  have tk: "take (length t) instructions @ [instructions ! length t]
              = take (Suc (length t)) instructions"
    using len by (simp add: take_Suc_conv_app_nth)
  from select_entry_shape [of e n "instructions ! length t" kind d "cancel_messages ! length t" t]
  obtain vs choice where "t' = t @ [Select (instructions ! length t) vs (Some choice)]"
    using assms(5) by auto
  with assms(1-3) tk show ?thesis by simp
qed

text \<open>
  Claim C8. Every run of \<open>main\<close> ends, and a run in which the operator cancels a prompt
  ends there: the cancelled prompt is the last thing that happens, no earlier prompt was
  cancelled, nothing but prompts happened (no message printed, no file opened or
  written), the prompts were the first ones of the three in order, each shown once, and
  the run exits with status 1 and the message of the cancelled step.
\<close>
theorem main_cancel_ends_run:
  "\<exists>out trace.
     main e = Some (out, trace)
     \<and> (list_ex cancelled trace \<longrightarrow>
          cancelled (last trace) \<and> \<not> list_ex cancelled (butlast trace)
        \<and> list_all is_select trace \<and> length trace \<le> 3
        \<and> map instruction_of trace = take (length trace) instructions
        \<and> out = Exit 1 (cancel_messages ! (length trace - 1)))"
proof (cases "ad_every e < 0 \<or> \<not> fs_exists e (music_directory e)
                \<or> \<not> fs_exists e (playlist_directory e)")
  case True
  then have "\<exists>out. main e = Some (out, [])"
    by (auto simp add: main_def)
  then show ?thesis by auto
next
  case False
  let ?P = "\<lambda>out trace. (list_ex cancelled trace \<longrightarrow>
          cancelled (last trace) \<and> \<not> list_ex cancelled (butlast trace)
        \<and> list_all is_select trace \<and> length trace \<le> 3
        \<and> map instruction_of trace = take (length trace) instructions
        \<and> out = Exit 1 (cancel_messages ! (length trace - 1)))"
  have i: "instructions ! 0 = ''Select the ads folder''"
    "instructions ! Suc 0 = ''Select the ad file''"
    "instructions ! 2 = ''Select the music folder''"
    by (simp_all add: instructions_def)
  have m: "cancel_messages ! 0 = Ads_Folder_Must_Be_Chosen"
    "cancel_messages ! Suc 0 = Ad_File_Must_Be_Chosen"
    "cancel_messages ! 2 = Music_Folder_Must_Be_Chosen"
    by (simp_all add: cancel_messages_def)
  obtain r1 t1 where s1:
    "select_entry e 0 ''Select the ads folder'' (fs_is_dir e) (music_directory e)
       Ads_Folder_Must_Be_Chosen [] = (r1, t1)"
    by fastforce
  show ?thesis
  proof (cases r1)
    case (Inl out)
    have "main e = Some (out, t1)"
      using False s1 Inl by (simp add: main_def)
    moreover have "?P out t1"
      using select_entry_stops [of "[]" e 0 "fs_is_dir e" "music_directory e" out t1] s1 Inl
      by (simp add: i m)
    ultimately show ?thesis by blast
  next
    case (Inr ads_folder)
    note r1 = Inr
    have g1: "list_all is_select t1 \<and> \<not> list_ex cancelled t1
              \<and> map instruction_of t1 = take (length t1) instructions \<and> length t1 = 1"
      using select_entry_goes_on [of "[]" e 0 "fs_is_dir e" "music_directory e" ads_folder t1]
        s1 r1
      by (simp add: i m)
    obtain r2 t2 where s2:
      "select_entry e 1 ''Select the ad file'' (fs_is_file e) ads_folder
         Ad_File_Must_Be_Chosen t1 = (r2, t2)"
      by fastforce
    show ?thesis
    proof (cases r2)
      case (Inl out)
      have "main e = Some (out, t2)"
        using False s1 r1 s2 Inl by (simp add: main_def)
      moreover have "?P out t2"
        using select_entry_stops [of t1 e 1 "fs_is_file e" ads_folder out t2] g1 s2 Inl
        by (simp add: i m)
      ultimately show ?thesis by blast
    next
      case (Inr ad_file)
      note r2 = Inr
      have g2: "list_all is_select t2 \<and> \<not> list_ex cancelled t2
                \<and> map instruction_of t2 = take (length t2) instructions \<and> length t2 = 2"
        using select_entry_goes_on [of t1 e 1 "fs_is_file e" ads_folder ad_file t2] g1 s2 r2
        by (simp add: i m)
      obtain r3 t3 where s3:
        "select_entry e 2 ''Select the music folder'' (fs_is_dir e) (music_directory e)
           Music_Folder_Must_Be_Chosen t2 = (r3, t3)"
        by fastforce
      show ?thesis
      proof (cases r3)
        case (Inl out)
        have "main e = Some (out, t3)"
          using False s1 r1 s2 r2 s3 Inl by (simp add: main_def)
        moreover have "?P out t3"
          using select_entry_stops [of t2 e 2 "fs_is_dir e" "music_directory e" out t3] g2 s3 Inl
          by (simp add: i m)
        ultimately show ?thesis by blast
      next
        case (Inr music_folder)
        note r3 = Inr
        have g3: "\<not> list_ex cancelled t3"
          using select_entry_goes_on [of t2 e 2 "fs_is_dir e" "music_directory e" music_folder t3]
            g2 s3 r3
          by (simp add: i m)
        show ?thesis
        proof (cases "get_audio_files e music_folder")
          case (Inl x)
          then have "main e = Some (Raised x, t3)"
            using False s1 r1 s2 r2 s3 r3 by (simp add: main_def)
          with g3 show ?thesis by simp
        next
          case (Inr tracks)
          obtain out evs where f: "finish e tracks ad_file t3 = Some (out, t3 @ evs)"
            and n: "\<not> list_ex is_select evs"
            using finish_events by blast
          from Inr f have "main e = Some (out, t3 @ evs)"
            using False s1 r1 s2 r2 s3 r3 by (simp add: main_def)
          moreover have "\<not> list_ex cancelled (t3 @ evs)"
            using g3 no_select_no_cancel [OF n] by simp
          ultimately show ?thesis by simp
        qed
      qed
    qed
  qed
qed

theorem main_cancel_ends_run_witness:
  "main (library_env [''ads'', ''ad.mp3''])
     = Some (Exit 1 Music_Folder_Must_Be_Chosen,
             [Select ''Select the ads folder'' [''ads'', ''rock''] (Some ''ads''),
              Select ''Select the ad file'' [''ad.mp3''] (Some ''ad.mp3''),
              Select ''Select the music folder'' [''ads'', ''rock''] None])
   \<and> list_ex cancelled
         [Select ''Select the ads folder'' [''ads'', ''rock''] (Some ''ads''),
          Select ''Select the ad file'' [''ad.mp3''] (Some ''ad.mp3''),
          Select ''Select the music folder'' [''ads'', ''rock''] None]
   \<and> Exit 1 Music_Folder_Must_Be_Chosen = Exit 1 (cancel_messages ! (3 - 1))"
proof -
  have run: "main (library_env [''ads'', ''ad.mp3''])
     = Some (Exit 1 Music_Folder_Must_Be_Chosen,
             [Select ''Select the ads folder'' [''ads'', ''rock''] (Some ''ads''),
              Select ''Select the ad file'' [''ad.mp3''] (Some ''ad.mp3''),
              Select ''Select the music folder'' [''ads'', ''rock''] None])"
    by code_simp
  from main_cancel_ends_run [of "library_env [''ads'', ''ad.mp3'']"] show ?thesis
    by (simp add: run cancel_messages_def)
qed

end
